theory Spec2Isabelle
  imports Complex_Main "HOL-Library.Word"
begin

section \<open>JavaScript numbers\<close>

text \<open>
  Every number of \<^verbatim>\<open>app.js\<close> is an IEEE-754 binary64 value. A finite double is
  modelled by the rational it denotes, and every arithmetic operation rounds its exact
  result to the nearest double, ties to even (53 significant bits, least exponent
  \<open>-1022\<close>, so subnormals are spaced \<open>2 ^ -1074\<close> apart). \<open>NaN\<close> is a value of its own.
  The infinities and the sign of zero are not represented: no operation of the program
  overflows on the inputs considered below, and the only division by zero it can
  perform is \<open>0 / 0\<close>.
\<close>

datatype jsnum = NaN | Fin rat

fun ilog2 :: "nat \<Rightarrow> nat" where
  "ilog2 n = (if n < 2 then 0 else Suc (ilog2 (n div 2)))"

declare ilog2.simps [simp del]

definition clog2 :: "nat \<Rightarrow> nat" where
  "clog2 n = (if n \<le> 1 then 0 else Suc (ilog2 (n - 1)))"

definition expo :: "rat \<Rightarrow> int" where
  \<comment> \<open>the binary exponent \<open>e\<close> of a nonzero \<open>x\<close>: \<open>2 ^ e \<le> \<bar>x\<bar> < 2 ^ (e + 1)\<close>\<close>
  "expo x = (if 1 \<le> \<bar>x\<bar> then int (ilog2 (nat \<lfloor>\<bar>x\<bar>\<rfloor>))
             else - int (clog2 (nat \<lceil>1 / \<bar>x\<bar>\<rceil>)))"

definition rhe :: "rat \<Rightarrow> int" where
  \<comment> \<open>round to the nearest integer, ties to the even one\<close>
  "rhe x = (let f = \<lfloor>x\<rfloor>; r = x - of_int f in
     if r < 1 / 2 then f else if 1 / 2 < r then f + 1 else if even f then f else f + 1)"

definition rhe_pick :: "int \<Rightarrow> int \<Rightarrow> int \<Rightarrow> int" where
  \<comment> \<open>the same choice from the quotient \<open>q\<close> and remainder \<open>r\<close> of a division by \<open>b\<close>\<close>
  "rhe_pick q r b =
     (if 2 * r < b then q else if b < 2 * r then q + 1 else if even q then q else q + 1)"

definition ulp :: "rat \<Rightarrow> rat" where
  \<comment> \<open>the spacing of the doubles around \<open>x\<close>\<close>
  "ulp x = 2 powi (max (expo x) (- 1022) - 52)"

definition rd :: "rat \<Rightarrow> rat" where
  \<comment> \<open>the double nearest to \<open>x\<close>\<close>
  "rd x = (if x = 0 then 0 else of_int (rhe (x / ulp x)) * ulp x)"

definition lit :: "rat \<Rightarrow> jsnum" where
  \<comment> \<open>a decimal literal of the source text denotes the nearest double\<close>
  "lit x = Fin (rd x)"

fun js_add :: "jsnum \<Rightarrow> jsnum \<Rightarrow> jsnum" where
  "js_add (Fin a) (Fin b) = Fin (rd (a + b))"
| "js_add _ _ = NaN"

fun js_sub :: "jsnum \<Rightarrow> jsnum \<Rightarrow> jsnum" where
  "js_sub (Fin a) (Fin b) = Fin (rd (a - b))"
| "js_sub _ _ = NaN"

fun js_mul :: "jsnum \<Rightarrow> jsnum \<Rightarrow> jsnum" where
  "js_mul (Fin a) (Fin b) = Fin (rd (a * b))"
| "js_mul _ _ = NaN"

fun js_div :: "jsnum \<Rightarrow> jsnum \<Rightarrow> jsnum" where
  \<comment> \<open>\<open>0 / 0\<close> is \<open>NaN\<close>; a nonzero dividend over zero (an infinity in JavaScript)
      does not occur in the program\<close>
  "js_div (Fin a) (Fin b) = (if b = 0 then NaN else Fin (rd (a / b)))"
| "js_div _ _ = NaN"

fun js_gt :: "jsnum \<Rightarrow> jsnum \<Rightarrow> bool" where
  \<comment> \<open>\<^verbatim>\<open>a > b\<close>: false as soon as one side is \<open>NaN\<close>\<close>
  "js_gt (Fin a) (Fin b) = (b < a)"
| "js_gt _ _ = False"

fun isNaN :: "jsnum \<Rightarrow> bool" where
  "isNaN NaN = True"
| "isNaN (Fin _) = False"

fun Math_round :: "jsnum \<Rightarrow> jsnum" where
  \<comment> \<open>\<^verbatim>\<open>Math.round\<close>: the nearest integer, ties towards \<open>+\<infinity>\<close>\<close>
  "Math_round (Fin a) = Fin (of_int \<lfloor>a + 1 / 2\<rfloor>)"
| "Math_round NaN = NaN"

fun Math_floor :: "jsnum \<Rightarrow> jsnum" where
  "Math_floor (Fin a) = Fin (of_int \<lfloor>a\<rfloor>)"
| "Math_floor NaN = NaN"

fun Math_max :: "jsnum \<Rightarrow> jsnum \<Rightarrow> jsnum" where
  "Math_max (Fin a) (Fin b) = Fin (max a b)"
| "Math_max _ _ = NaN"

subsection \<open>\<^verbatim>\<open>parseInt(s, 10)\<close>\<close>

text \<open>
  The built-in skips leading white space, reads an optional sign and then the longest
  run of decimal digits; with no digit the result is \<open>NaN\<close>, otherwise the integer read,
  as a double. Whatever follows the digits is ignored. A \<open>char\<close> is one code unit
  below 256, so the white space recognised is the part of JavaScript's set in that range.
\<close>

definition js_space :: "char \<Rightarrow> bool" where
  "js_space c = (of_char c \<in> {9, 10, 11, 12, 13, 32, 160 :: nat})"

definition is_digit :: "char \<Rightarrow> bool" where
  "is_digit c = (48 \<le> (of_char c :: nat) \<and> (of_char c :: nat) \<le> 57)"

definition digits_value :: "string \<Rightarrow> int" where
  "digits_value z = foldl (\<lambda>a c. 10 * a + (of_char c - 48)) 0 z"

definition parseInt10 :: "string \<Rightarrow> jsnum" where
  "parseInt10 s =
    (let s1 = dropWhile js_space s;
         neg = (s1 \<noteq> [] \<and> hd s1 = CHR ''-'');
         s2 = (if s1 \<noteq> [] \<and> (hd s1 = CHR ''-'' \<or> hd s1 = CHR ''+'') then tl s1 else s1);
         z = takeWhile is_digit s2
     in if z = [] then NaN
        else Fin (rd (of_int (if neg then - digits_value z else digits_value z))))"

section \<open>Images, blobs and work items\<close>

text \<open>
  A loaded image has its natural size and its picture, which only the browser reads.
  A blob is the byte string the encoder delivered; \<^verbatim>\<open>blob.size\<close> is its length.
  An entry of \<^verbatim>\<open>fileEntries\<close> keeps the image, the quality on the 0 to 100 scale, the
  converted blob (\<open>None\<close> is \<^verbatim>\<open>null\<close>), the text of its card's label and whether its
  download button is disabled. The \<^verbatim>\<open>file\<close> field only names downloads and is left out.
\<close>

record 'p image =
  naturalWidth :: nat
  naturalHeight :: nat
  picture :: 'p

datatype blob = Blob (bytes: "8 word list")

definition blob_size :: "blob \<Rightarrow> jsnum" where
  "blob_size b = Fin (of_nat (length (bytes b)))"

datatype label = Suggested jsnum | Chosen jsnum | Used jsnum

record 'p entry =
  img :: "'p image"
  quality :: jsnum
  convertedBlob :: "blob option"
  label :: label
  downloadDisabled :: bool

datatype error = TypeError | IndexSizeError

section \<open>computeComplexity\<close>

text \<open>
  The browser draws the image scaled to \<open>w \<times> h\<close> and hands back \<open>4 * w * h\<close> bytes
  (\<^verbatim>\<open>drawImage\<close>, \<^verbatim>\<open>getImageData\<close>); that is the parameter \<open>raster\<close>.
  \<^verbatim>\<open>getImageData\<close> throws an \<^verbatim>\<open>IndexSizeError\<close> when \<open>w\<close> or \<open>h\<close> is zero.
  The loop adds integers that stay far below \<open>2 ^ 53\<close> (at most 765 for each of at most
  \<open>256 * 256\<close> pixels), so its two sums are exact and kept as natural numbers.
  It reads \<open>data ! (i + 6)\<close> at most, which is inside the buffer whenever the length is a
  multiple of four.
\<close>

function scan :: "8 word list \<Rightarrow> nat \<Rightarrow> nat \<Rightarrow> nat \<Rightarrow> nat \<times> nat" where
  "scan data i diffSum maxDiff =
    (if int i < int (length data) - 4 then
       let dr = \<bar>int (unat (data ! i)) - int (unat (data ! (i + 4)))\<bar>;
           dg = \<bar>int (unat (data ! (i + 1))) - int (unat (data ! (i + 5)))\<bar>;
           db = \<bar>int (unat (data ! (i + 2))) - int (unat (data ! (i + 6)))\<bar>;
           diff = dr + dg + db
       in scan data (i + 4) (diffSum + nat diff) (maxDiff + 765)
     else (diffSum, maxDiff))"
  by pat_completeness auto
termination
  by (relation "measure (\<lambda>(data, i, diffSum, maxDiff). length data - i)") auto

declare scan.simps [simp del]

definition complexityOf :: "8 word list \<Rightarrow> jsnum" where
  \<comment> \<open>lines 85 to 96: the two sums and their quotient\<close>
  "complexityOf data =
    (let (diffSum, maxDiff) = scan data 0 0 0
     in js_div (Fin (of_nat diffSum)) (Fin (of_nat maxDiff)))"

fun to_dim :: "jsnum \<Rightarrow> nat" where
  "to_dim (Fin a) = nat \<lfloor>a\<rfloor>"
| "to_dim NaN = 0"

definition computeComplexity ::
  "('p image \<Rightarrow> nat \<Rightarrow> nat \<Rightarrow> 8 word list) \<Rightarrow> 'p image \<Rightarrow> error + jsnum" where
  "computeComplexity raster im =
    (let width = Fin (of_nat (naturalWidth im));
         height = Fin (of_nat (naturalHeight im));
         maxDim = Fin 256;
         scale = (if js_gt (Math_max width height) maxDim
                  then js_div maxDim (Math_max width height) else Fin 1);
         w = to_dim (Math_floor (js_mul width scale));
         h = to_dim (Math_floor (js_mul height scale))
     in if w = 0 \<or> h = 0 then Inl IndexSizeError
        else Inr (complexityOf (raster im w h)))"

section \<open>handleFiles\<close>

definition suggestedQuality :: "jsnum \<Rightarrow> jsnum" where
  \<comment> \<open>line 48\<close>
  "suggestedQuality complexity =
     Math_round (js_add (Fin 60) (js_mul (js_sub (Fin 90) (Fin 60)) complexity))"

definition newEntry ::
  "('p image \<Rightarrow> nat \<Rightarrow> nat \<Rightarrow> 8 word list) \<Rightarrow> 'p image \<Rightarrow> error + 'p entry" where
  \<comment> \<open>the \<^verbatim>\<open>img.onload\<close> callback with \<^verbatim>\<open>createCard\<close>; an exception leaves no entry\<close>
  "newEntry raster im =
    (case computeComplexity raster im of
       Inl e \<Rightarrow> Inl e
     | Inr complexity \<Rightarrow>
         Inr \<lparr>img = im, quality = suggestedQuality complexity, convertedBlob = None,
              label = Suggested (suggestedQuality complexity), downloadDisabled = True\<rparr>)"

text \<open>
  The slider of a card (lines 113 to 116): its \<^verbatim>\<open>input\<close> event stores
  \<^verbatim>\<open>parseInt(range.value, 10)\<close> as the entry's quality and shows it.
\<close>

definition rangeInput :: "string \<Rightarrow> 'p entry \<Rightarrow> 'p entry" where
  "rangeInput v entry = entry\<lparr>quality := parseInt10 v, label := Chosen (parseInt10 v)\<rparr>"

section \<open>convertEntry\<close>

text \<open>
  \<^verbatim>\<open>canvas.toBlob\<close> is the external encoder. It may depend on anything in the browser,
  so it takes and returns a state \<open>'w\<close> besides the image drawn on the canvas and the
  quality; it delivers a blob or \<^verbatim>\<open>null\<close>. The page state carries that state and the
  list of the encoder's invocations so far, each with its image, its quality and what it
  delivered.
\<close>

type_synonym ('w, 'p) codec = "'w \<Rightarrow> 'p image \<Rightarrow> jsnum \<Rightarrow> blob option \<times> 'w"

record ('w, 'p) page =
  world :: 'w
  invocations :: "('p image \<times> jsnum \<times> blob option) list"

definition toBlob ::
  "('w, 'p) codec \<Rightarrow> 'p image \<Rightarrow> jsnum \<Rightarrow> ('w, 'p) page \<Rightarrow> blob option \<times> ('w, 'p) page" where
  "toBlob codec im q s =
    (let (b, w') = codec (world s) im q
     in (b, \<lparr>world = w', invocations = invocations s @ [(im, q, b)]\<rparr>))"

text \<open>
  The \<^verbatim>\<open>while\<close> loop of lines 163 to 166. Reading \<^verbatim>\<open>blob.size\<close> of \<^verbatim>\<open>null\<close> throws a
  \<^verbatim>\<open>TypeError\<close>. The loop need not end for every number \<open>q\<close> (a large \<open>q\<close> is not changed
  by subtracting 0.05), so not returning is the value \<open>None\<close>.
\<close>

partial_function (option) convertEntry_loop ::
  "('w, 'p) codec \<Rightarrow> 'p image \<Rightarrow> jsnum \<Rightarrow> blob option \<Rightarrow> jsnum \<Rightarrow> ('w, 'p) page
    \<Rightarrow> ((error + blob option \<times> jsnum) \<times> ('w, 'p) page) option" where
  "convertEntry_loop codec im targetKb blob q s =
    (case blob of
       None \<Rightarrow> Some (Inl TypeError, s)
     | Some b \<Rightarrow>
         if js_gt (blob_size b) (js_mul targetKb (Fin 1024)) \<and> js_gt q (lit (2 / 10))
         then (let q' = js_sub q (lit (5 / 100));
                   (blob', s') = toBlob codec im q' s
               in convertEntry_loop codec im targetKb blob' q' s')
         else Some (Inr (blob, q), s))"

definition finish :: "'p entry \<Rightarrow> blob option \<Rightarrow> jsnum \<Rightarrow> 'p entry" where
  \<comment> \<open>lines 169 to 172: the blob is stored, the download button enabled, the quality shown\<close>
  "finish entry blob q =
     entry\<lparr>convertedBlob := blob, downloadDisabled := False,
           label := Used (Math_round (js_mul q (Fin 100)))\<rparr>"

definition convertEntry ::
  "('w, 'p) codec \<Rightarrow> string \<Rightarrow> 'p entry \<Rightarrow> ('w, 'p) page
    \<Rightarrow> ((error + 'p entry) \<times> ('w, 'p) page) option" where
  "convertEntry codec targetSizeInput entry s =
    (let targetKb = parseInt10 targetSizeInput;
         quality = js_div (quality entry) (Fin 100);
         (blob, s1) = toBlob codec (img entry) quality s
     in if \<not> isNaN targetKb \<and> js_gt targetKb (Fin 0)
        then (case convertEntry_loop codec (img entry) targetKb blob quality s1 of
                None \<Rightarrow> None
              | Some (Inl e, s2) \<Rightarrow> Some (Inl e, s2)
              | Some (Inr (blob', q), s2) \<Rightarrow> Some (Inr (finish entry blob' q), s2))
        else Some (Inr (finish entry blob quality), s1))"

section \<open>The "convert all" handler\<close>

text \<open>
  Lines 175 to 183, run with no other event in between: the entries are visited in the
  order of \<^verbatim>\<open>fileEntries\<close>; an exception of \<^verbatim>\<open>convertEntry\<close> ends the handler and leaves
  the remaining entries as they are. The result is the exception, if any, the entries
  and the page state afterwards.
\<close>

fun convertAll ::
  "('w, 'p) codec \<Rightarrow> string \<Rightarrow> 'p entry list \<Rightarrow> ('w, 'p) page
    \<Rightarrow> (error option \<times> 'p entry list \<times> ('w, 'p) page) option" where
  "convertAll codec targetSizeInput [] s = Some (None, [], s)"
| "convertAll codec targetSizeInput (entry # rest) s =
    (if convertedBlob entry = None
     then (case convertEntry codec targetSizeInput entry s of
             None \<Rightarrow> None
           | Some (Inl e, s') \<Rightarrow> Some (Some e, entry # rest, s')
           | Some (Inr entry', s') \<Rightarrow>
               (case convertAll codec targetSizeInput rest s' of
                  None \<Rightarrow> None
                | Some (r, rest', s'') \<Rightarrow> Some (r, entry' # rest', s'')))
     else (case convertAll codec targetSizeInput rest s of
             None \<Rightarrow> None
           | Some (r, rest', s') \<Rightarrow> Some (r, entry # rest', s')))"

section \<open>Notions used to state the properties\<close>

text \<open>
  The loop condition of line 163 at one invocation of the encoder: the blob delivered is
  larger than the budget and the quality is above 0.2. With \<^verbatim>\<open>null\<close> delivered the
  condition cannot be evaluated.
\<close>

definition continues :: "jsnum \<Rightarrow> 'p image \<times> jsnum \<times> blob option \<Rightarrow> bool" where
  "continues targetKb call =
    (case snd (snd call) of
       None \<Rightarrow> False
     | Some b \<Rightarrow> js_gt (blob_size b) (js_mul targetKb (Fin 1024)) \<and> js_gt (fst (snd call)) (lit (2 / 10)))"

text \<open>
  \<open>loop_trace targetKb im q blob news\<close>: the invocations \<open>news\<close> are those of a run of the
  loop entered with quality \<open>q\<close> and blob \<open>blob\<close>: each one follows an invocation at which
  the loop condition held, at the quality before less 0.05, and the condition fails at
  the last one.
\<close>

fun loop_trace ::
  "jsnum \<Rightarrow> 'p image \<Rightarrow> jsnum \<Rightarrow> blob option \<Rightarrow> ('p image \<times> jsnum \<times> blob option) list \<Rightarrow> bool" where
  "loop_trace targetKb im q blob [] = (\<not> continues targetKb (im, q, blob))"
| "loop_trace targetKb im q blob (call # rest) =
    (continues targetKb (im, q, blob) \<and> fst call = im \<and> fst (snd call) = js_sub q (lit (5 / 100)) \<and>
     loop_trace targetKb im (fst (snd call)) (snd (snd call)) rest)"

text \<open>
  \<open>descent k q\<close>: the qualities the loop goes through from \<open>q\<close> when no blob meets the
  budget, down to the first one that is not above 0.2; \<open>None\<close> when \<open>k\<close> steps do not
  reach it.
\<close>

fun descent :: "nat \<Rightarrow> jsnum \<Rightarrow> jsnum list option" where
  "descent 0 q = None"
| "descent (Suc k) q =
    (if js_gt q (lit (2 / 10))
     then map_option (Cons (js_sub q (lit (5 / 100)))) (descent k (js_sub q (lit (5 / 100))))
     else Some [])"

text \<open>
  The number of steps of 0.05 that lead from the initial quality \<open>n / 100\<close> to the floor
  0.20 or below it: \<open>\<lceil>(n / 100 - 0.20) / 0.05\<rceil>\<close>.
\<close>

definition decrements :: "int \<Rightarrow> nat" where
  "decrements n = nat \<lceil>(of_int n / 100 - 20 / 100) / (5 / 100 :: rat)\<rceil>"

text \<open>
  From 0.40, 0.45, 0.50 and 0.55 the rounded subtractions of the code arrive just above
  the double 0.2 instead of at it, and the loop subtracts once more than that number:
  \<open>overshoot n\<close> is the number of these extra steps.
\<close>

definition overshoot :: "int \<Rightarrow> nat" where
  "overshoot n = (if n \<in> {40, 45, 50, 55} then 1 else 0)"

definition descent_ok_at :: "int \<Rightarrow> jsnum \<Rightarrow> nat \<Rightarrow> bool" where
  "descent_ok_at n q d =
    (case descent 18 q of
       None \<Rightarrow> False
     | Some qs \<Rightarrow>
         length qs = d \<and>
         list_all (\<lambda>q'. js_gt q' (Fin (3 / 20))) (q # qs) \<and>
         Math_round (js_mul (last (q # qs)) (Fin 100)) = Fin (of_int (n - 5 * int d)))"

text \<open>\<open>descent_cons\<close> lets an evaluation compute each quality once.\<close>

definition descent_cons :: "nat \<Rightarrow> jsnum \<Rightarrow> jsnum list option" where
  "descent_cons k q = map_option (Cons q) (descent k q)"

definition descent_ok :: "int \<Rightarrow> bool" where
  "descent_ok n =
     descent_ok_at n (js_div (Fin (of_int n)) (Fin 100)) (decrements n + overshoot n)"

text \<open>
  Converting every entry of a list in turn, as the spec words the "convert all"
  operation for the entries that are not converted yet, and putting the results back
  at the places of those entries.
\<close>

fun convertEach ::
  "('w, 'p) codec \<Rightarrow> string \<Rightarrow> 'p entry list \<Rightarrow> ('w, 'p) page
    \<Rightarrow> (error option \<times> 'p entry list \<times> ('w, 'p) page) option" where
  "convertEach codec targetSizeInput [] s = Some (None, [], s)"
| "convertEach codec targetSizeInput (entry # rest) s =
    (case convertEntry codec targetSizeInput entry s of
       None \<Rightarrow> None
     | Some (Inl e, s') \<Rightarrow> Some (Some e, entry # rest, s')
     | Some (Inr entry', s') \<Rightarrow>
         (case convertEach codec targetSizeInput rest s' of
            None \<Rightarrow> None
          | Some (r, rest', s'') \<Rightarrow> Some (r, entry' # rest', s'')))"

fun weave :: "'p entry list \<Rightarrow> 'p entry list \<Rightarrow> 'p entry list" where
  "weave [] new = []"
| "weave (entry # rest) new =
    (if convertedBlob entry = None
     then (case new of [] \<Rightarrow> entry # weave rest [] | entry' # new' \<Rightarrow> entry' # weave rest new')
     else entry # weave rest new)"

text \<open>
  What the loop returns after the invocations \<open>news\<close>: an exception when the last blob is
  \<^verbatim>\<open>null\<close>, else the last blob and the last quality.
\<close>

definition loop_result ::
  "'p image \<Rightarrow> jsnum \<Rightarrow> blob option \<Rightarrow> ('p image \<times> jsnum \<times> blob option) list \<Rightarrow> error + blob option \<times> jsnum" where
  "loop_result im q blob news =
    (case snd (snd (last ((im, q, blob) # news))) of
       None \<Rightarrow> Inl TypeError
     | Some b \<Rightarrow> Inr (Some b, fst (snd (last ((im, q, blob) # news)))))"

section \<open>Concrete inputs\<close>

text \<open>
  A 10 by 10 image, an entry with a given quality that is not converted yet, an encoder
  whose blobs all have 2000 bytes, one whose blobs all have 100 bytes, and a page on
  which the encoder has not run.
\<close>

definition image10 :: "unit image" where
  "image10 = \<lparr>naturalWidth = 10, naturalHeight = 10, picture = ()\<rparr>"

definition fresh :: "int \<Rightarrow> unit entry" where
  "fresh n = \<lparr>img = image10, quality = Fin (of_int n), convertedBlob = None,
              label = Suggested (Fin (of_int n)), downloadDisabled = True\<rparr>"

definition codec2000 :: "(nat, unit) codec" where
  "codec2000 w im q = (Some (Blob (replicate 2000 (of_nat w))), Suc w)"

definition codec100 :: "(nat, unit) codec" where
  "codec100 w im q = (Some (Blob (replicate 100 0)), Suc w)"

text \<open>
  An encoder whose blob depends on the quality alone: 2000 bytes above the quality 0.5,
  100 bytes from there down.
\<close>

definition codec_by_quality :: "(nat, unit) codec" where
  "codec_by_quality w im q =
     (Some (Blob (replicate (if js_gt q (Fin (1 / 2)) then 2000 else 100) 0)), Suc w)"

definition page0 :: "(nat, unit) page" where
  "page0 = \<lparr>world = 0, invocations = []\<rparr>"

text \<open>Another page, and an entry that is converted already.\<close>

definition page7 :: "(nat, unit) page" where
  "page7 = \<lparr>world = 7, invocations = [(image10, Fin 1, None)]\<rparr>"

definition converted70 :: "unit entry" where
  "converted70 = \<lparr>img = image10, quality = Fin 70, convertedBlob = Some (Blob [1, 2, 3]),
                   label = Used (Fin 70), downloadDisabled = False\<rparr>"

text \<open>An image of a single pixel, and what the browser hands back for it.\<close>

definition image1 :: "unit image" where
  "image1 = \<lparr>naturalWidth = 1, naturalHeight = 1, picture = ()\<rparr>"

definition raster1 :: "unit image \<Rightarrow> nat \<Rightarrow> nat \<Rightarrow> 8 word list" where
  "raster1 im w h = [10, 20, 30, 255]"

section \<open>Rounding to a double\<close>

subsection \<open>The exponent\<close>

lemma ilog2_bounds: "0 < n \<Longrightarrow> 2 ^ ilog2 n \<le> n \<and> n < 2 ^ Suc (ilog2 n)"
proof (induction n rule: ilog2.induct)
  case (1 n)
  show ?case
  proof (cases "n < 2")
    case True
    with "1.prems" show ?thesis by (simp add: ilog2.simps [of n])
  next
    case False
    then have pos: "0 < n div 2" by simp
    from "1.IH" [OF False pos]
    have lo: "2 ^ ilog2 (n div 2) \<le> n div 2" and hi: "n div 2 < 2 ^ Suc (ilog2 (n div 2))"
      by simp_all
    have e: "ilog2 n = Suc (ilog2 (n div 2))"
      using False by (simp add: ilog2.simps [of n])
    from lo have "2 * 2 ^ ilog2 (n div 2) \<le> n" by linarith
    moreover from hi have "n < 2 * 2 ^ Suc (ilog2 (n div 2))" by linarith
    ultimately show ?thesis by (simp add: e)
  qed
qed

lemma clog2_bounds:
  assumes "2 \<le> m"
  shows "m \<le> 2 ^ clog2 m" and "2 ^ (clog2 m - 1) < m"
proof -
  from assms have pos: "0 < m - 1" by simp
  from ilog2_bounds [OF pos]
  have lo: "2 ^ ilog2 (m - 1) \<le> m - 1" and hi: "m - 1 < 2 ^ Suc (ilog2 (m - 1))"
    by simp_all
  have c: "clog2 m = Suc (ilog2 (m - 1))" using assms by (simp add: clog2_def)
  from hi show "m \<le> 2 ^ clog2 m" unfolding c by linarith
  from lo show "2 ^ (clog2 m - 1) < m" unfolding c using pos by simp
qed

lemma expo_bounds:
  assumes "x \<noteq> 0"
  shows "2 powi expo x \<le> \<bar>x\<bar>" and "\<bar>x\<bar> < 2 powi (expo x + 1)"
proof -
  let ?a = "\<bar>x\<bar>"
  have apos: "0 < ?a" using assms by simp
  have "2 powi expo x \<le> ?a \<and> ?a < 2 powi (expo x + 1)"
  proof (cases "1 \<le> ?a")
    case True
    let ?n = "nat \<lfloor>?a\<rfloor>"
    have npos: "0 < ?n" using True by simp
    have e: "expo x = int (ilog2 ?n)" using True by (simp add: expo_def)
    from ilog2_bounds [OF npos]
    have lo: "2 ^ ilog2 ?n \<le> ?n" and hi: "?n < 2 ^ Suc (ilog2 ?n)" by simp_all
    have n_le: "(of_nat ?n :: rat) \<le> ?a" using True by simp
    have a_lt: "?a < of_nat ?n + 1"
    proof -
      have "?a < of_int \<lfloor>?a\<rfloor> + 1" by linarith
      also have "of_int \<lfloor>?a\<rfloor> = (of_nat ?n :: rat)" using True by simp
      finally show ?thesis .
    qed
    have "(2::rat) ^ ilog2 ?n \<le> of_nat ?n"
    proof -
      have "(of_nat (2 ^ ilog2 ?n) :: rat) \<le> of_nat ?n"
        using lo by (rule iffD2 [OF of_nat_le_iff])
      then show ?thesis by simp
    qed
    with n_le have A: "(2::rat) ^ ilog2 ?n \<le> ?a" by linarith
    have "?n + 1 \<le> 2 ^ Suc (ilog2 ?n)" using hi by simp
    then have "(of_nat (?n + 1) :: rat) \<le> of_nat (2 ^ Suc (ilog2 ?n))"
      by (rule iffD2 [OF of_nat_le_iff])
    then have "(of_nat ?n :: rat) + 1 \<le> 2 ^ Suc (ilog2 ?n)" by simp
    with a_lt have B: "?a < (2::rat) ^ Suc (ilog2 ?n)" by linarith
    have p1: "(2::rat) powi expo x = 2 ^ ilog2 ?n" unfolding e by simp
    have p2: "(2::rat) powi (expo x + 1) = 2 ^ Suc (ilog2 ?n)"
    proof -
      have "int (ilog2 ?n) + 1 = int (Suc (ilog2 ?n))" by simp
      then show ?thesis unfolding e by (simp only: power_int_of_nat)
    qed
    show ?thesis using A B p1 p2 by simp
  next
    case False
    define y where "y = 1 / ?a"
    define m where "m = nat \<lceil>y\<rceil>"
    have y1: "1 < y" using False apos by (simp add: y_def)
    then have c2: "2 \<le> \<lceil>y\<rceil>" by linarith
    then have m2: "2 \<le> m" unfolding m_def by linarith
    have e: "expo x = - int (clog2 m)" using False by (simp add: expo_def m_def y_def)
    from clog2_bounds [OF m2]
    have up: "m \<le> 2 ^ clog2 m" and low: "2 ^ (clog2 m - 1) < m" by simp_all
    have cpos: "0 < clog2 m" using m2 by (simp add: clog2_def)
    have "0 \<le> \<lceil>y\<rceil>" using c2 by linarith
    then have m_eq: "(of_nat m :: rat) = of_int \<lceil>y\<rceil>" unfolding m_def by (rule of_nat_nat)
    have "y \<le> of_nat m" unfolding m_eq by linarith
    moreover have "(of_nat m :: rat) \<le> of_nat (2 ^ clog2 m)"
      using up by (rule iffD2 [OF of_nat_le_iff])
    moreover have "(of_nat (2 ^ clog2 m) :: rat) = 2 ^ clog2 m" by simp
    ultimately have yle: "y \<le> 2 ^ clog2 m" by linarith
    have "2 ^ (clog2 m - 1) + 1 \<le> m" using low by simp
    then have "(of_nat (2 ^ (clog2 m - 1) + 1) :: rat) \<le> of_nat m"
      by (rule iffD2 [OF of_nat_le_iff])
    moreover have "(of_nat (2 ^ (clog2 m - 1) + 1) :: rat) = 2 ^ (clog2 m - 1) + 1" by simp
    ultimately have "(2::rat) ^ (clog2 m - 1) + 1 \<le> of_int \<lceil>y\<rceil>"
      unfolding m_eq by linarith
    moreover have "of_int \<lceil>y\<rceil> < y + 1" by linarith
    ultimately have ygt: "(2::rat) ^ (clog2 m - 1) < y" by linarith
    have ya: "1 / y = ?a" by (simp add: y_def)
    have A: "2 powi expo x \<le> ?a"
    proof -
      have "1 / (2::rat) ^ clog2 m \<le> 1 / y"
        using yle y1 by (intro divide_left_mono) auto
      then show ?thesis unfolding e ya by (simp add: power_int_minus_divide)
    qed
    have B: "?a < 2 powi (expo x + 1)"
    proof -
      have "1 / y < 1 / (2::rat) ^ (clog2 m - 1)"
        using ygt y1 by (intro divide_strict_left_mono) auto
      moreover have "expo x + 1 = - int (clog2 m - 1)" unfolding e using cpos by simp
      ultimately show ?thesis unfolding ya by (simp add: power_int_minus_divide)
    qed
    show ?thesis using A B by simp
  qed
  then show "2 powi expo x \<le> \<bar>x\<bar>" and "\<bar>x\<bar> < 2 powi (expo x + 1)" by simp_all
qed

subsection \<open>Rounding to an integer\<close>

lemma rhe_of_int: "rhe (of_int k) = k"
  by (simp add: rhe_def)

lemma rhe_range: "\<lfloor>x\<rfloor> \<le> rhe x \<and> rhe x \<le> \<lfloor>x\<rfloor> + 1"
  by (simp add: rhe_def Let_def)

lemma rhe_mono:
  assumes "x \<le> y"
  shows "rhe x \<le> rhe y"
proof (cases "\<lfloor>x\<rfloor> = \<lfloor>y\<rfloor>")
  case True
  have "x - of_int \<lfloor>x\<rfloor> \<le> y - of_int \<lfloor>y\<rfloor>" using assms True by simp
  then show ?thesis unfolding rhe_def Let_def True by auto
next
  case False
  have "\<lfloor>x\<rfloor> \<le> \<lfloor>y\<rfloor>" using assms by (rule floor_mono)
  with False have "\<lfloor>x\<rfloor> + 1 \<le> \<lfloor>y\<rfloor>" by simp
  with rhe_range [of x] rhe_range [of y] show ?thesis by linarith
qed

lemma rhe_minus: "rhe (- x) = - rhe x"
proof (cases "x = of_int \<lfloor>x\<rfloor>")
  case True
  then obtain k where "x = of_int k" ..
  then have "rhe x = k" and "- x = of_int (- k)" by (simp_all add: rhe_of_int)
  then show ?thesis by (metis rhe_of_int)
next
  case False
  define f where "f = \<lfloor>x\<rfloor>"
  define r where "r = x - of_int f"
  have r0: "0 < r" and r1: "r < 1"
    using False unfolding r_def f_def by linarith+
  have fl: "\<lfloor>- x\<rfloor> = - f - 1"
    unfolding f_def using False by (simp add: floor_minus ceiling_altdef)
  have rr: "- x - of_int (- f - 1) = 1 - r" by (simp add: r_def)
  have px: "rhe x = (if r < 1 / 2 then f else if 1 / 2 < r then f + 1 else if even f then f else f + 1)"
    by (simp add: rhe_def Let_def f_def r_def)
  have pm: "rhe (- x) = (if 1 - r < 1 / 2 then - f - 1 else if 1 / 2 < 1 - r then - f
      else if even (- f - 1) then - f - 1 else - f)"
    unfolding rhe_def Let_def fl rr by simp
  show ?thesis unfolding px pm by auto
qed

subsection \<open>Rounding is odd and monotone\<close>

lemma expo_minus: "expo (- x) = expo x"
  by (simp add: expo_def)

lemma ulp_minus: "ulp (- x) = ulp x"
  by (simp add: ulp_def expo_minus)

lemma ulp_pos: "0 < ulp x"
  by (simp add: ulp_def)

lemma rd_minus: "rd (- x) = - rd x"
  by (simp add: rd_def ulp_minus rhe_minus)

lemma rd_nonneg: "0 \<le> x \<Longrightarrow> 0 \<le> rd x"
proof -
  assume "0 \<le> x"
  then have "0 \<le> x / ulp x" using ulp_pos [of x] by simp
  then have "rhe 0 \<le> rhe (x / ulp x)" by (rule rhe_mono)
  then have "0 \<le> rhe (x / ulp x)" using rhe_of_int [of 0] by simp
  then show ?thesis using ulp_pos [of x] by (simp add: rd_def)
qed

lemma expo_mono:
  assumes "0 < x" and "x \<le> y"
  shows "expo x \<le> expo y"
proof -
  have "2 powi expo x \<le> \<bar>x\<bar>" using assms by (intro expo_bounds) simp
  also have "\<bar>x\<bar> \<le> \<bar>y\<bar>" using assms by simp
  also have "\<bar>y\<bar> < 2 powi (expo y + 1)" using assms by (intro expo_bounds) simp
  finally have lt: "(2::rat) powi expo x < 2 powi (expo y + 1)" .
  show ?thesis
  proof (rule ccontr)
    assume "\<not> expo x \<le> expo y"
    then have "expo y + 1 \<le> expo x" by simp
    then have "(2::rat) powi (expo y + 1) \<le> 2 powi expo x"
      by (intro power_int_increasing) simp_all
    with lt show False by simp
  qed
qed

lemma rd_mono_pos:
  assumes "0 < x" and "x \<le> y"
  shows "rd x \<le> rd y"
proof -
  define ex where "ex = max (expo x) (- 1022)"
  define ey where "ey = max (expo y) (- 1022)"
  have ypos: "0 < y" using assms by simp
  have ux: "ulp x = 2 powi (ex - 52)" and uy: "ulp y = 2 powi (ey - 52)"
    by (simp_all add: ulp_def ex_def ey_def)
  have rx: "rd x = of_int (rhe (x / ulp x)) * ulp x" using assms by (simp add: rd_def)
  have ry: "rd y = of_int (rhe (y / ulp y)) * ulp y" using ypos by (simp add: rd_def)
  have le: "ex \<le> ey" unfolding ex_def ey_def using expo_mono [OF assms] by simp
  show ?thesis
  proof (cases "ex = ey")
    case True
    then have u: "ulp y = ulp x" by (simp add: ux uy)
    have "x / ulp x \<le> y / ulp x" using assms ulp_pos [of x] by (simp add: divide_right_mono)
    then have "rhe (x / ulp x) \<le> rhe (y / ulp x)" by (rule rhe_mono)
    then have "(of_int (rhe (x / ulp x)) :: rat) \<le> of_int (rhe (y / ulp x))" by simp
    then show ?thesis unfolding rx ry u using ulp_pos [of x] by (simp add: mult_right_mono)
  next
    case False
    with le have lt: "ex < ey" by simp
    then have ey_eq: "ey = expo y" unfolding ex_def ey_def by linarith
    have ex1: "expo x + 1 \<le> ey" using lt unfolding ex_def by linarith
    define B :: rat where "B = 2 powi ey"
    have xB: "x \<le> B"
    proof -
      have "\<bar>x\<bar> < 2 powi (expo x + 1)" using assms by (intro expo_bounds) simp
      also have "\<dots> \<le> 2 powi ey" using ex1 by (intro power_int_increasing) simp_all
      finally show ?thesis using assms by (simp add: B_def)
    qed
    have By: "B \<le> y"
    proof -
      have "2 powi expo y \<le> \<bar>y\<bar>" using ypos by (intro expo_bounds) simp
      then show ?thesis using ypos by (simp add: B_def ey_eq)
    qed
    have kx: "B / ulp x = of_int (2 ^ nat (ey - ex + 52))"
    proof -
      have "B / ulp x = 2 powi (ey - (ex - 52))" unfolding B_def ux by (simp add: power_int_diff)
      also have "ey - (ex - 52) = int (nat (ey - ex + 52))" using le by simp
      finally show ?thesis by (simp only: power_int_of_nat of_int_power of_int_numeral)
    qed
    have ky: "B / ulp y = of_int (2 ^ 52)"
    proof -
      have "B / ulp y = 2 powi (ey - (ey - 52))" unfolding B_def uy by (simp add: power_int_diff)
      then show ?thesis by simp
    qed
    have "x / ulp x \<le> B / ulp x" using xB ulp_pos [of x] by (simp add: divide_right_mono)
    then have "rhe (x / ulp x) \<le> rhe (B / ulp x)" by (rule rhe_mono)
    then have "(of_int (rhe (x / ulp x)) :: rat) \<le> B / ulp x"
      unfolding kx rhe_of_int by simp
    then have "rd x \<le> B" unfolding rx using ulp_pos [of x] by (simp add: pos_le_divide_eq)
    moreover
    have "B / ulp y \<le> y / ulp y" using By ulp_pos [of y] by (simp add: divide_right_mono)
    then have "rhe (B / ulp y) \<le> rhe (y / ulp y)" by (rule rhe_mono)
    then have "B / ulp y \<le> (of_int (rhe (y / ulp y)) :: rat)"
      unfolding ky rhe_of_int by simp
    then have "B \<le> rd y" unfolding ry using ulp_pos [of y] by (simp add: pos_divide_le_eq)
    ultimately show ?thesis by simp
  qed
qed

lemma rd_mono:
  assumes "x \<le> y"
  shows "rd x \<le> rd y"
proof -
  consider "0 < x" | "x \<le> 0" "0 \<le> y" | "y < 0" by linarith
  then show ?thesis
  proof cases
    case 1
    then show ?thesis using assms by (rule rd_mono_pos)
  next
    case 2
    have "0 \<le> rd (- x)" using 2 by (intro rd_nonneg) simp
    then have "rd x \<le> 0" by (simp add: rd_minus)
    moreover have "0 \<le> rd y" using 2 by (intro rd_nonneg)
    ultimately show ?thesis by simp
  next
    case 3
    have "rd (- y) \<le> rd (- x)" using 3 assms by (intro rd_mono_pos) simp_all
    then show ?thesis by (simp add: rd_minus)
  qed
qed

subsection \<open>Rounding inside one binade\<close>

lemma expo_unique:
  assumes "2 powi e \<le> \<bar>x\<bar>" and "\<bar>x\<bar> < 2 powi (e + 1)"
  shows "expo x = e"
proof -
  have "0 < (2::rat) powi e" by simp
  with assms(1) have "0 < \<bar>x\<bar>" by linarith
  then have nz: "x \<noteq> 0" by simp
  note b = expo_bounds [OF nz]
  have "expo x < e + 1"
  proof (rule ccontr)
    assume "\<not> expo x < e + 1"
    then have "(2::rat) powi (e + 1) \<le> 2 powi expo x" by (intro power_int_increasing) simp_all
    with b(1) assms(2) show False by simp
  qed
  moreover have "e < expo x + 1"
  proof (rule ccontr)
    assume "\<not> e < expo x + 1"
    then have "(2::rat) powi (expo x + 1) \<le> 2 powi e" by (intro power_int_increasing) simp_all
    with b(2) assms(1) show False by simp
  qed
  ultimately show ?thesis by simp
qed

lemma rd_binade:
  assumes "2 powi e \<le> \<bar>x\<bar>" and "\<bar>x\<bar> < 2 powi (e + 1)" and "- 1022 \<le> e"
  shows "rd x = of_int (rhe (x * 2 powi (52 - e))) * 2 powi (e - 52)"
proof -
  have "0 < (2::rat) powi e" by simp
  with assms(1) have "0 < \<bar>x\<bar>" by linarith
  then have nz: "x \<noteq> 0" by simp
  have e: "expo x = e" using assms(1,2) by (rule expo_unique)
  have u: "ulp x = 2 powi (e - 52)" using assms(3) by (simp add: ulp_def e)
  have "x / 2 powi (e - 52) = x * 2 powi (52 - e)"
    by (simp add: power_int_diff)
  then show ?thesis using nz by (simp add: rd_def u)
qed

text \<open>An integer below \<open>2 ^ 53\<close> in magnitude is a double.\<close>

lemma rd_of_int:
  assumes "\<bar>k\<bar> < 2 ^ 53"
  shows "rd (of_int k) = of_int k"
proof (cases "k = 0")
  case True
  then show ?thesis by (simp add: rd_def)
next
  case False
  define x :: rat where "x = of_int k"
  define e where "e = expo x"
  have nz: "x \<noteq> 0" using False by (simp add: x_def)
  note b = expo_bounds [OF nz, folded e_def]
  have x1: "1 \<le> \<bar>x\<bar>"
  proof -
    have "1 \<le> \<bar>k\<bar>" using False by simp
    then have "(of_int 1 :: rat) \<le> of_int \<bar>k\<bar>" by (simp only: of_int_le_iff)
    then show ?thesis by (simp add: x_def)
  qed
  have x2: "\<bar>x\<bar> < 2 powi 53"
  proof -
    have "(of_int \<bar>k\<bar> :: rat) < of_int (2 ^ 53)" using assms by (simp only: of_int_less_iff)
    then show ?thesis by (simp add: x_def)
  qed
  have e0: "0 \<le> e"
  proof (rule ccontr)
    assume "\<not> 0 \<le> e"
    then have "(2::rat) powi (e + 1) \<le> 2 powi 0" by (intro power_int_increasing) simp_all
    with b(2) x1 show False by simp
  qed
  have e52: "e \<le> 52"
  proof (rule ccontr)
    assume "\<not> e \<le> 52"
    then have "(2::rat) powi 53 \<le> 2 powi e" by (intro power_int_increasing) simp_all
    with b(1) x2 show False by simp
  qed
  define P :: rat where "P = 2 powi (52 - e)"
  define Q :: rat where "Q = 2 powi (e - 52)"
  define m where "m = k * 2 ^ nat (52 - e)"
  have A: "rd x = of_int (rhe (x * P)) * Q"
    unfolding P_def Q_def using b e0 by (intro rd_binade) simp_all
  have B: "x * P = of_int m"
    using e52 by (simp add: x_def P_def m_def power_int_def)
  have C: "P * Q = 1"
    unfolding P_def Q_def by (simp flip: power_int_add)
  have "rd x = of_int (rhe (of_int m)) * Q" by (simp only: A B)
  also have "\<dots> = of_int m * Q" by (simp only: rhe_of_int)
  also have "\<dots> = x * P * Q" by (simp only: B)
  also have "\<dots> = x * (P * Q)" by (simp only: mult.assoc)
  also have "\<dots> = x" by (simp only: C mult_1_right)
  finally show ?thesis unfolding x_def .
qed

lemma rd_numeral: "(numeral v :: int) < 9007199254740992 \<Longrightarrow> rd (numeral v) = numeral v"
  using rd_of_int [of "numeral v"] by simp

lemma rd_0: "rd 0 = 0"
  by (simp add: rd_def)

lemma rd_1: "rd 1 = 1"
  using rd_of_int [of 1] by simp

subsection \<open>Evaluating the rounding of a given number\<close>

lemma rd_binade_m5:
  "1 / 32 \<le> x \<Longrightarrow> x < 1 / 16 \<Longrightarrow> rd x = of_int (rhe (x * 144115188075855872)) / 144115188075855872"
  using rd_binade [of "- 5" x] by (simp add: power_int_minus_divide)

lemma rd_binade_m4:
  "1 / 16 \<le> x \<Longrightarrow> x < 1 / 8 \<Longrightarrow> rd x = of_int (rhe (x * 72057594037927936)) / 72057594037927936"
  using rd_binade [of "- 4" x] by (simp add: power_int_minus_divide)

lemma rd_binade_m3:
  "1 / 8 \<le> x \<Longrightarrow> x < 1 / 4 \<Longrightarrow> rd x = of_int (rhe (x * 36028797018963968)) / 36028797018963968"
  using rd_binade [of "- 3" x] by (simp add: power_int_minus_divide)

lemma rd_binade_m2:
  "1 / 4 \<le> x \<Longrightarrow> x < 1 / 2 \<Longrightarrow> rd x = of_int (rhe (x * 18014398509481984)) / 18014398509481984"
  using rd_binade [of "- 2" x] by (simp add: power_int_minus_divide)

lemma rd_binade_m1:
  "1 / 2 \<le> x \<Longrightarrow> x < 1 \<Longrightarrow> rd x = of_int (rhe (x * 9007199254740992)) / 9007199254740992"
  using rd_binade [of "- 1" x] by (simp add: power_int_minus_divide)

lemma rd_binade_p0:
  "1 \<le> x \<Longrightarrow> x < 2 \<Longrightarrow> rd x = of_int (rhe (x * 4503599627370496)) / 4503599627370496"
  using rd_binade [of "0" x] by (simp add: power_int_minus_divide)

lemma rd_binade_p1:
  "2 \<le> x \<Longrightarrow> x < 4 \<Longrightarrow> rd x = of_int (rhe (x * 2251799813685248)) / 2251799813685248"
  using rd_binade [of "1" x] by (simp add: power_int_minus_divide)

lemma rd_binade_p2:
  "4 \<le> x \<Longrightarrow> x < 8 \<Longrightarrow> rd x = of_int (rhe (x * 1125899906842624)) / 1125899906842624"
  using rd_binade [of "2" x] by (simp add: power_int_minus_divide)

lemma rd_binade_p3:
  "8 \<le> x \<Longrightarrow> x < 16 \<Longrightarrow> rd x = of_int (rhe (x * 562949953421312)) / 562949953421312"
  using rd_binade [of "3" x] by (simp add: power_int_minus_divide)

lemma rd_binade_p4:
  "16 \<le> x \<Longrightarrow> x < 32 \<Longrightarrow> rd x = of_int (rhe (x * 281474976710656)) / 281474976710656"
  using rd_binade [of "4" x] by (simp add: power_int_minus_divide)

lemma rd_binade_p5:
  "32 \<le> x \<Longrightarrow> x < 64 \<Longrightarrow> rd x = of_int (rhe (x * 140737488355328)) / 140737488355328"
  using rd_binade [of "5" x] by (simp add: power_int_minus_divide)

lemma rd_binade_p6:
  "64 \<le> x \<Longrightarrow> x < 128 \<Longrightarrow> rd x = of_int (rhe (x * 70368744177664)) / 70368744177664"
  using rd_binade [of "6" x] by (simp add: power_int_minus_divide)

lemma rd_tree:
  "1 / 32 \<le> x \<Longrightarrow> x < 128 \<Longrightarrow> rd x =
     (if x < 2
      then (if x < 1 / 4
        then (if x < 1 / 8
          then (if x < 1 / 16
            then of_int (rhe (x * 144115188075855872)) / 144115188075855872
            else of_int (rhe (x * 72057594037927936)) / 72057594037927936)
          else of_int (rhe (x * 36028797018963968)) / 36028797018963968)
        else (if x < 1
          then (if x < 1 / 2
            then of_int (rhe (x * 18014398509481984)) / 18014398509481984
            else of_int (rhe (x * 9007199254740992)) / 9007199254740992)
          else of_int (rhe (x * 4503599627370496)) / 4503599627370496))
      else (if x < 16
        then (if x < 8
          then (if x < 4
            then of_int (rhe (x * 2251799813685248)) / 2251799813685248
            else of_int (rhe (x * 1125899906842624)) / 1125899906842624)
          else of_int (rhe (x * 562949953421312)) / 562949953421312)
        else (if x < 64
          then (if x < 32
            then of_int (rhe (x * 281474976710656)) / 281474976710656
            else of_int (rhe (x * 140737488355328)) / 140737488355328)
          else of_int (rhe (x * 70368744177664)) / 70368744177664)))"
  by (simp add: not_less rd_binade_m5 rd_binade_m4 rd_binade_m3 rd_binade_m2 rd_binade_m1 rd_binade_p0 rd_binade_p1 rd_binade_p2 rd_binade_p3 rd_binade_p4 rd_binade_p5 rd_binade_p6)

lemma rhe_int_div:
  assumes "0 < b"
  shows "rhe (of_int a / of_int b) =
    (if 2 * (a mod b) < b then a div b else if b < 2 * (a mod b) then a div b + 1
     else if even (a div b) then a div b else a div b + 1)"
proof -
  have f: "\<lfloor>(of_int a / of_int b :: rat)\<rfloor> = a div b" by (rule floor_divide_of_int_eq)
  have "(of_int a :: rat) = of_int (a div b * b + a mod b)" by simp
  also have "\<dots> = of_int (a div b) * of_int b + of_int (a mod b)" by (simp only: of_int_add of_int_mult)
  finally have r: "(of_int a / of_int b :: rat) - of_int (a div b) = of_int (a mod b) / of_int b"
    using assms by (simp add: field_simps)
  have lt: "(of_int (a mod b) / of_int b :: rat) < 1 / 2 \<longleftrightarrow> 2 * (a mod b) < b"
  proof -
    have "(of_int (a mod b) / of_int b :: rat) < 1 / 2 \<longleftrightarrow> (of_int (2 * (a mod b)) :: rat) < of_int b"
      using assms by (simp add: field_simps)
    then show ?thesis by (simp only: of_int_less_iff)
  qed
  have gt: "1 / 2 < (of_int (a mod b) / of_int b :: rat) \<longleftrightarrow> b < 2 * (a mod b)"
  proof -
    have "1 / 2 < (of_int (a mod b) / of_int b :: rat) \<longleftrightarrow> (of_int b :: rat) < of_int (2 * (a mod b))"
      using assms by (simp add: field_simps)
    then show ?thesis by (simp only: of_int_less_iff)
  qed
  show ?thesis unfolding rhe_def Let_def f r lt gt by (rule refl)
qed

lemma rhe_numeral_div:
  "rhe (numeral a / numeral b) = rhe_pick (numeral a div numeral b) (numeral a mod numeral b) (numeral b)"
  unfolding rhe_pick_def using rhe_int_div [of "numeral b" "numeral a"] by simp

lemma rhe_numeral: "rhe (numeral a) = numeral a"
  using rhe_of_int [of "numeral a"] by simp

lemma floor_numeral_div: "\<lfloor>numeral a / numeral b :: rat\<rfloor> = numeral a div numeral b"
  using floor_divide_of_int_eq [of "numeral a" "numeral b", where ?'a = rat] by simp

lemmas rd_eval = rd_tree rd_numeral rd_0 rd_1 rhe_numeral_div rhe_pick_def rhe_numeral floor_numeral_div

lemma lit_2_10: "lit (2 / 10) = Fin (3602879701896397 / 18014398509481984)"
  by (simp add: lit_def rd_eval)

lemma lit_5_100: "lit (5 / 100) = Fin (3602879701896397 / 72057594037927936)"
  by (simp add: lit_def rd_eval)

section \<open>The loop of convertEntry\<close>

lemma loop_result_Cons:
  "loop_result im q blob (c # news) = loop_result (fst c) (fst (snd c)) (snd (snd c)) news"
proof -
  have "last ((im, q, blob) # c # news) = last ((fst c, fst (snd c), snd (snd c)) # news)"
    by simp
  then show ?thesis unfolding loop_result_def by (simp only:)
qed

lemma invocations_toBlob:
  "toBlob codec im q s = (b, s1) \<Longrightarrow>
     invocations s1 = invocations s @ [(im, q, b)] \<and> b = fst (codec (world s) im q)"
  by (auto simp: toBlob_def split: prod.splits)

lemma loop_run:
  assumes "descent k q = Some qs"
  shows "\<exists>res s' news.
      convertEntry_loop codec im t blob q s = Some (res, s') \<and>
      invocations s' = invocations s @ news \<and>
      loop_trace t im q blob news \<and>
      map (fst \<circ> snd) news = take (length news) qs \<and>
      length news \<le> length qs \<and>
      res = loop_result im q blob news \<and>
      (\<forall>x \<in> set news. \<exists>w. snd (snd x) = fst (codec w im (fst (snd x))))"
  using assms
proof (induction k arbitrary: q qs blob s)
  case 0
  then show ?case by simp
next
  case (Suc k)
  show ?case
  proof (cases "continues t (im, q, blob)")
    case False
    have "convertEntry_loop codec im t blob q s = Some (loop_result im q blob [], s)"
      using False
      by (subst convertEntry_loop.simps)
         (auto simp: continues_def loop_result_def split: option.splits)
    then show ?thesis using False by simp
  next
    case True
    then obtain b where b: "blob = Some b"
      and big: "js_gt (blob_size b) (js_mul t (Fin 1024))" and hi: "js_gt q (lit (2 / 10))"
      by (auto simp: continues_def split: option.splits)
    define q' where "q' = js_sub q (lit (5 / 100))"
    obtain blob' s1 where tb: "toBlob codec im q' s = (blob', s1)" by (cases "toBlob codec im q' s")
    from Suc.prems hi obtain qs' where d: "descent k q' = Some qs'" and qs: "qs = q' # qs'"
      by (auto simp: q'_def)
    from Suc.IH [OF d, of blob' s1] obtain res s' news where
      run: "convertEntry_loop codec im t blob' q' s1 = Some (res, s')" and
      inv: "invocations s' = invocations s1 @ news" and
      tr: "loop_trace t im q' blob' news" and
      pre: "map (fst \<circ> snd) news = take (length news) qs'" and
      len: "length news \<le> length qs'" and
      res: "res = loop_result im q' blob' news" and
      prov: "\<forall>x \<in> set news. \<exists>w. snd (snd x) = fst (codec w im (fst (snd x)))"
      by blast
    note i1 = invocations_toBlob [OF tb]
    have step: "convertEntry_loop codec im t blob q s = convertEntry_loop codec im t blob' q' s1"
      using b big hi tb by (subst convertEntry_loop.simps) (simp add: q'_def)
    let ?news = "(im, q', blob') # news"
    have "convertEntry_loop codec im t blob q s = Some (res, s')" using step run by simp
    moreover have "invocations s' = invocations s @ ?news" using inv i1 by simp
    moreover have "loop_trace t im q blob ?news" using True tr by (simp add: q'_def)
    moreover have "map (fst \<circ> snd) ?news = take (length ?news) qs" using pre qs by simp
    moreover have "length ?news \<le> length qs" using len qs by simp
    moreover have "res = loop_result im q blob ?news" using res by (simp add: loop_result_Cons)
    moreover have "\<forall>x \<in> set ?news. \<exists>w. snd (snd x) = fst (codec w im (fst (snd x)))"
      using prov i1 by auto
    ultimately show ?thesis by blast
  qed
qed


lemma loop_trace_oversize:
  assumes "descent k q = Some qs"
    and "loop_trace t im q blob news"
    and "map (fst \<circ> snd) news = take (length news) qs"
    and "\<exists>b. blob = Some b \<and> js_gt (blob_size b) (js_mul t (Fin 1024))"
    and "\<forall>x \<in> set news. \<exists>b. snd (snd x) = Some b \<and> js_gt (blob_size b) (js_mul t (Fin 1024))"
  shows "length news = length qs"
  using assms
proof (induction k arbitrary: q qs blob news)
  case 0
  then show ?case by simp
next
  case (Suc k)
  show ?case
  proof (cases "js_gt q (lit (2 / 10))")
    case False
    with Suc.prems(1) have "qs = []" by simp
    with Suc.prems(3) show ?thesis by simp
  next
    case True
    with Suc.prems(1) obtain qs' where d: "descent k (js_sub q (lit (5 / 100))) = Some qs'"
      and qs: "qs = js_sub q (lit (5 / 100)) # qs'" by auto
    from True Suc.prems(4) have c: "continues t (im, q, blob)" by (auto simp: continues_def)
    with Suc.prems(2) obtain x rest where news: "news = x # rest" by (cases news) auto
    from Suc.prems(2) have tr: "loop_trace t im (fst (snd x)) (snd (snd x)) rest"
      and qx: "fst (snd x) = js_sub q (lit (5 / 100))" unfolding news by auto
    have "length rest = length qs'"
    proof (rule Suc.IH [of "fst (snd x)" qs' "snd (snd x)" rest])
      show "descent k (fst (snd x)) = Some qs'" using d qx by simp
      show "loop_trace t im (fst (snd x)) (snd (snd x)) rest" by (rule tr)
      show "map (fst \<circ> snd) rest = take (length rest) qs'" using Suc.prems(3) unfolding news qs by (simp add: comp_def)
      show "\<exists>b. snd (snd x) = Some b \<and> js_gt (blob_size b) (js_mul t (Fin 1024))"
        using Suc.prems(5) unfolding news by simp
      show "\<forall>x \<in> set rest. \<exists>b. snd (snd x) = Some b \<and> js_gt (blob_size b) (js_mul t (Fin 1024))"
        using Suc.prems(5) unfolding news by simp
    qed
    then show ?thesis unfolding news qs by simp
  qed
qed

lemma loop_trace_last:
  "loop_trace t im q blob news \<Longrightarrow>
     list_all (continues t) (butlast ((im, q, blob) # news)) \<and> \<not> continues t (last ((im, q, blob) # news))"
proof (induction news arbitrary: q blob)
  case Nil
  then show ?case by simp
next
  case (Cons x rest)
  obtain i q' b' where x: "x = (i, q', b')" by (cases x)
  from Cons.prems have c: "continues t (im, q, blob)" and i: "i = im"
    and tr: "loop_trace t im q' b' rest" unfolding x by auto
  from Cons.IH [OF tr] c show ?case unfolding x i by simp
qed

text \<open>One turn of the loop, and its end, for evaluating a run on given inputs.\<close>

lemma loop_continue:
  assumes "js_gt (blob_size b) (js_mul t (Fin 1024))" and "js_gt q (lit (2 / 10))"
  shows "convertEntry_loop codec im t (Some b) q s =
     (let q' = js_sub q (lit (5 / 100)); c = codec (world s) im q'
      in convertEntry_loop codec im t (fst c) q'
           \<lparr>world = snd c, invocations = invocations s @ [(im, q', fst c)]\<rparr>)"
  using assms by (subst convertEntry_loop.simps) (simp add: toBlob_def Let_def split: prod.splits)

lemma loop_stop:
  assumes "\<not> js_gt (blob_size b) (js_mul t (Fin 1024)) \<or> \<not> js_gt q (lit (2 / 10))"
  shows "convertEntry_loop codec im t (Some b) q s = Some (Inr (Some b, q), s)"
  using assms by (subst convertEntry_loop.simps) auto

lemma loop_continue_Fin:
  assumes "rd (t * 1024) < of_nat (length (bytes b))"
    and "3602879701896397 / 18014398509481984 < x"
  shows "convertEntry_loop codec im (Fin t) (Some b) (Fin x) s =
     (let q' = Fin (rd (x - 3602879701896397 / 72057594037927936)); c = codec (world s) im q'
      in convertEntry_loop codec im (Fin t) (fst c) q'
           \<lparr>world = snd c, invocations = invocations s @ [(im, q', fst c)]\<rparr>)"
proof -
  have "js_gt (blob_size b) (js_mul (Fin t) (Fin 1024))" using assms(1) by (simp add: blob_size_def)
  moreover have "js_gt (Fin x) (lit (2 / 10))" using assms(2) by (simp only: lit_2_10 js_gt.simps)
  ultimately show ?thesis by (simp only: loop_continue lit_5_100 js_sub.simps)
qed

lemma loop_stop_Fin:
  assumes "\<not> rd (t * 1024) < of_nat (length (bytes b)) \<or> \<not> 3602879701896397 / 18014398509481984 < x"
  shows "convertEntry_loop codec im (Fin t) (Some b) (Fin x) s = Some (Inr (Some b, Fin x), s)"
proof -
  have "\<not> js_gt (blob_size b) (js_mul (Fin t) (Fin 1024)) \<or> \<not> js_gt (Fin x) (lit (2 / 10))"
    using assms by (simp only: lit_2_10 js_gt.simps blob_size_def js_mul.simps)
  then show ?thesis by (rule loop_stop)
qed

section \<open>One invocation: no budget, or a budget met at once\<close>

lemma convertEntry_no_budget:
  assumes "isNaN (parseInt10 targetSizeInput) \<or> \<not> js_gt (parseInt10 targetSizeInput) (Fin 0)"
    and "codec (world s) (img entry) (js_div (quality entry) (Fin 100)) = (blob, w')"
  shows "convertEntry codec targetSizeInput entry s =
    Some (Inr (finish entry blob (js_div (quality entry) (Fin 100))),
          \<lparr>world = w', invocations = invocations s @
             [(img entry, js_div (quality entry) (Fin 100), blob)]\<rparr>)"
  using assms by (auto simp: convertEntry_def toBlob_def Let_def)

lemma convertEntry_budget:
  assumes "parseInt10 targetSizeInput = Fin t" and "0 < t"
    and "toBlob codec (img entry) (js_div (quality entry) (Fin 100)) s = (blob, s1)"
  shows "convertEntry codec targetSizeInput entry s =
    (case convertEntry_loop codec (img entry) (Fin t) blob (js_div (quality entry) (Fin 100)) s1 of
       None \<Rightarrow> None
     | Some (Inl e, s2) \<Rightarrow> Some (Inl e, s2)
     | Some (Inr (blob', q), s2) \<Rightarrow> Some (Inr (finish entry blob' q), s2))"
  using assms by (simp add: convertEntry_def Let_def)

lemma convertEntry_within_budget:
  assumes "parseInt10 targetSizeInput = Fin t" and "0 < t"
    and "codec (world s) (img entry) (js_div (quality entry) (Fin 100)) = (Some b, w')"
    and "\<not> js_gt (blob_size b) (js_mul (Fin t) (Fin 1024))"
  shows "convertEntry codec targetSizeInput entry s =
    Some (Inr (finish entry (Some b) (js_div (quality entry) (Fin 100))),
          \<lparr>world = w', invocations = invocations s @
             [(img entry, js_div (quality entry) (Fin 100), Some b)]\<rparr>)"
proof -
  let ?q = "js_div (quality entry) (Fin 100)"
  let ?s1 = "\<lparr>world = w', invocations = invocations s @ [(img entry, ?q, Some b)]\<rparr>"
  have tb: "toBlob codec (img entry) ?q s = (Some b, ?s1)"
    using assms(3) by (simp add: toBlob_def)
  have "convertEntry_loop codec (img entry) (Fin t) (Some b) ?q ?s1 = Some (Inr (Some b, ?q), ?s1)"
    using assms(4) by (subst convertEntry_loop.simps) simp
  then show ?thesis
    using convertEntry_budget [OF assms(1,2) tb] by simp
qed


lemma parseInt10_empty: "parseInt10 [] = NaN"
  by (simp add: parseInt10_def)

lemma parseInt10_abc: "parseInt10 ''abc'' = NaN"
  by (simp add: parseInt10_def js_space_def is_digit_def)

lemma parseInt10_1: "parseInt10 ''1'' = Fin 1"
  by (simp add: parseInt10_def js_space_def is_digit_def digits_value_def rd_eval)

lemma parseInt10_minus_3: "parseInt10 ''-3'' = Fin (- 3)"
  by (simp add: parseInt10_def js_space_def is_digit_def digits_value_def rd_minus rd_eval)

text \<open>Text after the digits is ignored, so such an input does set a budget.\<close>

lemma parseInt10_12abc: "parseInt10 ''12abc'' = Fin 12"
  by (simp add: parseInt10_def js_space_def is_digit_def digits_value_def rd_eval)

lemma js_div_60_100: "js_div (Fin 60) (Fin 100) = Fin (5404319552844595 / 9007199254740992)"
  by (simp add: rd_eval)

lemma js_div_90_100: "js_div (Fin 90) (Fin 100) = Fin (8106479329266893 / 9007199254740992)"
  by (simp add: rd_eval)

text \<open>
  C6. When the target size input is empty, has no leading integer (\<^verbatim>\<open>parseInt\<close> gives
  \<open>NaN\<close>) or parses to a value that is not positive, \<^verbatim>\<open>convertEntry\<close> invokes the encoder
  exactly once, at the entry's quality over 100, stores what that invocation delivered
  and reports that quality; the loop does not run.
\<close>

theorem C6_invalid_budget_single_invocation:
  assumes "targetSizeInput = [] \<or> parseInt10 targetSizeInput = NaN \<or>
           (\<exists>v. parseInt10 targetSizeInput = Fin v \<and> v \<le> 0)"
    and "codec (world s) (img entry) (js_div (quality entry) (Fin 100)) = (blob, w')"
  shows "convertEntry codec targetSizeInput entry s =
    Some (Inr (entry\<lparr>convertedBlob := blob, downloadDisabled := False,
                     label := Used (Math_round (js_mul (js_div (quality entry) (Fin 100)) (Fin 100)))\<rparr>),
          \<lparr>world = w', invocations = invocations s @
             [(img entry, js_div (quality entry) (Fin 100), blob)]\<rparr>)"
proof -
  from assms(1) have "isNaN (parseInt10 targetSizeInput) \<or> \<not> js_gt (parseInt10 targetSizeInput) (Fin 0)"
    by (auto simp: parseInt10_empty)
  with assms(2) show ?thesis
    using convertEntry_no_budget [of targetSizeInput codec s entry blob w']
    by (simp add: finish_def)
qed

theorem C6_invalid_budget_witness:
  "parseInt10 ''abc'' = NaN \<and>
   convertEntry codec100 ''abc'' (fresh 60) page0 =
     Some (Inr ((fresh 60)\<lparr>convertedBlob := Some (Blob (replicate 100 0)), downloadDisabled := False,
                          label := Used (Fin 60)\<rparr>),
           \<lparr>world = 1, invocations =
              [(image10, Fin (5404319552844595 / 9007199254740992), Some (Blob (replicate 100 0)))]\<rparr>)"
  using C6_invalid_budget_single_invocation [of "''abc''" codec100 page0 "fresh 60"
      "Some (Blob (replicate 100 0))" 1]
  by (simp add: parseInt10_abc codec100_def page0_def fresh_def js_div_60_100 rd_eval)

text \<open>
  C7. With a positive budget, when the first encoding at the initial quality already fits
  the budget, \<^verbatim>\<open>convertEntry\<close> invokes the encoder exactly once and keeps that blob and
  that quality.
\<close>

theorem C7_budget_met_at_once:
  assumes "parseInt10 targetSizeInput = Fin t" and "0 < t"
    and "codec (world s) (img entry) (js_div (quality entry) (Fin 100)) = (Some b, w')"
    and "\<not> js_gt (blob_size b) (js_mul (Fin t) (Fin 1024))"
  shows "convertEntry codec targetSizeInput entry s =
    Some (Inr (entry\<lparr>convertedBlob := Some b, downloadDisabled := False,
                     label := Used (Math_round (js_mul (js_div (quality entry) (Fin 100)) (Fin 100)))\<rparr>),
          \<lparr>world = w', invocations = invocations s @
             [(img entry, js_div (quality entry) (Fin 100), Some b)]\<rparr>)"
  using assms convertEntry_within_budget [of targetSizeInput t codec s entry b w']
  by (simp add: finish_def)

theorem C7_budget_met_witness:
  "parseInt10 ''1'' = Fin 1 \<and>
   \<not> js_gt (blob_size (Blob (replicate 100 0))) (js_mul (Fin 1) (Fin 1024)) \<and>
   convertEntry codec100 ''1'' (fresh 90) page0 =
     Some (Inr ((fresh 90)\<lparr>convertedBlob := Some (Blob (replicate 100 0)), downloadDisabled := False,
                          label := Used (Fin 90)\<rparr>),
           \<lparr>world = 1, invocations =
              [(image10, Fin (8106479329266893 / 9007199254740992), Some (Blob (replicate 100 0)))]\<rparr>)"
  using C7_budget_met_at_once [of "''1''" 1 codec100 page0 "fresh 90" "Blob (replicate 100 0)" 1]
  by (simp add: parseInt10_1 codec100_def page0_def fresh_def js_div_90_100 blob_size_def rd_eval)

section \<open>The sums of computeComplexity\<close>

lemma scan_maxDiff:
  "length data = 4 * N \<Longrightarrow> i = 4 * j \<Longrightarrow> j < N \<Longrightarrow>
     snd (scan data i diffSum maxDiff) = maxDiff + 765 * (N - 1 - j)"
proof (induction data i diffSum maxDiff arbitrary: j rule: scan.induct)
  case (1 data i diffSum maxDiff)
  show ?case
  proof (cases "int i < int (length data) - 4")
    case True
    with "1.prems" have j: "j + 1 < N" by simp
    have "snd (scan data (i + 4) (diffSum + nat (\<bar>int (unat (data ! i)) - int (unat (data ! (i + 4)))\<bar>
        + \<bar>int (unat (data ! (i + 1))) - int (unat (data ! (i + 5)))\<bar>
        + \<bar>int (unat (data ! (i + 2))) - int (unat (data ! (i + 6)))\<bar>)) (maxDiff + 765))
      = maxDiff + 765 + 765 * (N - 1 - (j + 1))"
      using "1.prems" j by (intro "1.IH" [OF True refl refl refl refl]) simp_all
    moreover have "765 + 765 * (N - 1 - (j + 1)) = 765 * (N - 1 - j)" using j by simp
    ultimately show ?thesis using True by (subst scan.simps) (simp add: Let_def)
  next
    case False
    with "1.prems" have "N - 1 - j = 0" by simp
    with False show ?thesis by (subst scan.simps) simp
  qed
qed

lemma scan_one_pixel: "length data = 4 \<Longrightarrow> scan data 0 0 0 = (0, 0)"
  by (subst scan.simps) simp

text \<open>
  C5, as the code has it: for a buffer of \<open>N \<ge> 1\<close> pixels the loop runs over the \<open>N - 1\<close>
  pairs of neighbouring pixels, so \<open>maxDiff\<close> ends as 765 times \<open>N - 1\<close>, and the function
  returns the quotient of the two sums.
\<close>

theorem C5_maxDiff_counts_pairs:
  assumes "length data = 4 * N" and "1 \<le> N"
  shows "snd (scan data 0 0 0) = 765 * (N - 1) \<and>
         complexityOf data =
           js_div (Fin (of_nat (fst (scan data 0 0 0)))) (Fin (of_nat (765 * (N - 1))))"
proof -
  have m: "snd (scan data 0 0 0) = 765 * (N - 1)"
    using scan_maxDiff [of data N 0 0 0 0] assms by simp
  then show ?thesis by (simp add: complexityOf_def split_beta)
qed

theorem C5_maxDiff_witness:
  "length [0, 0, 0, 255, 255, 255, 255, 255 :: 8 word] = 4 * 2 \<and> (1::nat) \<le> 2 \<and>
   snd (scan [0, 0, 0, 255, 255, 255, 255, 255] 0 0 0) = 765 \<and>
   complexityOf [0, 0, 0, 255, 255, 255, 255, 255] =
     js_div (Fin (of_nat (fst (scan [0, 0, 0, 255, 255, 255, 255, 255] 0 0 0)))) (Fin 765)"
  using C5_maxDiff_counts_pairs [of "[0, 0, 0, 255, 255, 255, 255, 255]" 2] by simp

text \<open>
  C5 as stated fails: a buffer of two pixels gives \<open>maxDiff = 765\<close>, not 765 times the
  pixel count 2.
\<close>

theorem C5_maxDiff_counterexample:
  "\<not> (\<forall>data N. length data = 4 * N \<and> 1 \<le> N \<longrightarrow> snd (scan data 0 0 0) = 765 * N)"
proof
  assume "\<forall>data N. length data = 4 * N \<and> 1 \<le> N \<longrightarrow> snd (scan data 0 0 0) = 765 * N"
  then have "length [0, 0, 0, 255, 255, 255, 255, 255 :: 8 word] = 4 * 2 \<and> (1::nat) \<le> 2 \<longrightarrow>
      snd (scan [0, 0, 0, 255, 255, 255, 255, 255] 0 0 0) = 765 * 2"
    by blast
  then have "snd (scan [0, 0, 0, 255, 255, 255, 255, 255] 0 0 0) = 765 * 2"
    by simp
  moreover have "snd (scan [0, 0, 0, 255, 255, 255, 255, 255] 0 0 0) = 765"
    using scan_maxDiff [of "[0, 0, 0, 255, 255, 255, 255, 255]" 2 0 0 0 0] by simp
  ultimately show False by simp
qed

lemma byte_diff: "\<bar>int (unat (a :: 8 word)) - int (unat (b :: 8 word))\<bar> \<le> 255"
proof -
  have "unat a < 2 ^ 8" and "unat b < 2 ^ 8"
    using unsigned_less [of a, where ?'a = nat] unsigned_less [of b, where ?'a = nat] by simp_all
  then have "unat a < 256" and "unat b < 256" by simp_all
  then show ?thesis by linarith
qed

lemma scan_diffSum_le:
  "diffSum \<le> maxDiff \<Longrightarrow> fst (scan data i diffSum maxDiff) \<le> snd (scan data i diffSum maxDiff)"
proof (induction data i diffSum maxDiff rule: scan.induct)
  case (1 data i diffSum maxDiff)
  show ?case
  proof (cases "int i < int (length data) - 4")
    case True
    define diff where "diff = \<bar>int (unat (data ! i)) - int (unat (data ! (i + 4)))\<bar>
        + \<bar>int (unat (data ! (i + 1))) - int (unat (data ! (i + 5)))\<bar>
        + \<bar>int (unat (data ! (i + 2))) - int (unat (data ! (i + 6)))\<bar>"
    have "diff \<le> 765"
      unfolding diff_def
      using byte_diff [of "data ! i" "data ! (i + 4)"] byte_diff [of "data ! (i + 1)" "data ! (i + 5)"]
        byte_diff [of "data ! (i + 2)" "data ! (i + 6)"] by linarith
    then have le: "diffSum + nat diff \<le> maxDiff + 765" using "1.prems" by linarith
    have "fst (scan data (i + 4) (diffSum + nat diff) (maxDiff + 765))
        \<le> snd (scan data (i + 4) (diffSum + nat diff) (maxDiff + 765))"
      unfolding diff_def using le [unfolded diff_def]
      by (intro "1.IH" [OF True refl refl refl refl])
    then show ?thesis using True unfolding diff_def by (subst (1 2) scan.simps) (simp add: Let_def)
  next
    case False
    with "1.prems" show ?thesis by (subst (1 2) scan.simps) simp
  qed
qed

text \<open>With two pixels or more the complexity is a number between 0 and 1.\<close>

lemma complexityOf_unit_interval:
  assumes "length data = 4 * N" and "2 \<le> N"
  shows "\<exists>c. complexityOf data = Fin c \<and> 0 \<le> c \<and> c \<le> 1"
proof -
  obtain d m where sc: "scan data 0 0 0 = (d, m)" by (cases "scan data 0 0 0")
  have m: "m = 765 * (N - 1)" using scan_maxDiff [of data N 0 0 0 0] assms sc by simp
  then have mpos: "0 < m" using assms by simp
  have dm: "d \<le> m" using scan_diffSum_le [of 0 0 data 0] sc by simp
  let ?x = "of_nat d / of_nat m :: rat"
  have "0 \<le> ?x" by simp
  then have "rd 0 \<le> rd ?x" by (rule rd_mono)
  moreover have "?x \<le> 1" using dm mpos by simp
  then have "rd ?x \<le> rd 1" by (rule rd_mono)
  ultimately have "0 \<le> rd ?x \<and> rd ?x \<le> 1" by (simp add: rd_0 rd_1)
  moreover have "complexityOf data = Fin (rd ?x)" using sc mpos by (simp add: complexityOf_def)
  ultimately show ?thesis by simp
qed

text \<open>
  C2 at an image of one pixel: the loop body never runs, both sums stay 0, and the
  function returns \<open>0 / 0\<close>, which is \<open>NaN\<close>; the suggested quality of the new entry is
  \<open>NaN\<close> as well.
\<close>

theorem C2_one_pixel_gives_NaN:
  "computeComplexity raster1 image1 = Inr NaN \<and>
   map_sum id quality (newEntry raster1 image1) = Inr NaN"
proof -
  have "computeComplexity raster1 image1 = Inr (complexityOf (raster1 image1 1 1))"
    by (simp add: computeComplexity_def image1_def Let_def rd_eval)
  moreover have "complexityOf (raster1 image1 1 1) = NaN"
    by (simp add: complexityOf_def raster1_def scan_one_pixel)
  ultimately show ?thesis by (simp add: newEntry_def suggestedQuality_def)
qed

section \<open>The suggested quality\<close>

lemma suggestedQuality_Fin:
  "suggestedQuality (Fin s) = Fin (of_int \<lfloor>rd (60 + rd (30 * s)) + 1 / 2\<rfloor>)"
  by (simp add: suggestedQuality_def rd_eval)

lemma suggestedQuality_mono:
  assumes "s \<le> t"
  shows "\<lfloor>rd (60 + rd (30 * s)) + 1 / 2\<rfloor> \<le> \<lfloor>rd (60 + rd (30 * t)) + 1 / 2\<rfloor>"
proof -
  have "30 * s \<le> 30 * t" using assms by simp
  then have "rd (30 * s) \<le> rd (30 * t)" by (rule rd_mono)
  then have "60 + rd (30 * s) \<le> 60 + rd (30 * t)" by simp
  then have "rd (60 + rd (30 * s)) \<le> rd (60 + rd (30 * t))" by (rule rd_mono)
  then have "rd (60 + rd (30 * s)) + 1 / 2 \<le> rd (60 + rd (30 * t)) + 1 / 2" by simp
  then show ?thesis by (rule floor_mono)
qed

lemma suggestedQuality_at_0: "\<lfloor>rd (60 + rd (30 * 0)) + 1 / 2\<rfloor> = 60"
  by (simp add: rd_eval)

lemma suggestedQuality_at_1: "\<lfloor>rd (60 + rd (30 * 1)) + 1 / 2\<rfloor> = 90"
  by (simp add: rd_eval)

text \<open>
  C4. For complexity scores \<open>0 \<le> s \<le> t \<le> 1\<close> the suggested quality is the integer
  \<^verbatim>\<open>Math.round(60 + (90 - 60) * s)\<close>, computed in doubles; it lies between 60 and 90, it
  does not decrease from \<open>s\<close> to \<open>t\<close>, and the score 0 gives 60.
\<close>

theorem C4_suggested_quality:
  assumes "0 \<le> s" and "s \<le> t" and "t \<le> 1"
  shows "\<exists>a b. suggestedQuality (Fin s) = Fin (of_int a) \<and>
               suggestedQuality (Fin t) = Fin (of_int b) \<and>
               a = \<lfloor>rd (60 + rd (30 * s)) + 1 / 2\<rfloor> \<and>
               60 \<le> a \<and> a \<le> b \<and> b \<le> 90 \<and>
               suggestedQuality (Fin 0) = Fin 60"
proof -
  let ?f = "\<lambda>x. \<lfloor>rd (60 + rd (30 * x)) + 1 / 2\<rfloor>"
  have "?f 0 \<le> ?f s" using assms(1) by (rule suggestedQuality_mono)
  moreover have "?f s \<le> ?f t" using assms(2) by (rule suggestedQuality_mono)
  moreover have "?f t \<le> ?f 1" using assms(3) by (rule suggestedQuality_mono)
  ultimately have "60 \<le> ?f s \<and> ?f s \<le> ?f t \<and> ?f t \<le> 90"
    by (simp only: suggestedQuality_at_0 suggestedQuality_at_1)
  moreover have "suggestedQuality (Fin 0) = Fin 60"
    using suggestedQuality_at_0 by (simp only: suggestedQuality_Fin) simp
  ultimately show ?thesis by (simp only: suggestedQuality_Fin) blast
qed

theorem C4_suggested_quality_witness:
  "(\<exists>a b. suggestedQuality (Fin 0) = Fin (of_int a) \<and>
          suggestedQuality (Fin (1 / 2)) = Fin (of_int b) \<and>
          a = \<lfloor>rd (60 + rd (30 * 0)) + 1 / 2\<rfloor> \<and>
          60 \<le> a \<and> a \<le> b \<and> b \<le> 90 \<and>
          suggestedQuality (Fin 0) = Fin 60) \<and>
   suggestedQuality (Fin (1 / 2)) = Fin 75"
proof -
  have "(0::rat) \<le> 0" and "(0::rat) \<le> 1 / 2" and "(1 / 2 :: rat) \<le> 1" by simp_all
  then have "\<exists>a b. suggestedQuality (Fin 0) = Fin (of_int a) \<and>
          suggestedQuality (Fin (1 / 2)) = Fin (of_int b) \<and>
          a = \<lfloor>rd (60 + rd (30 * 0)) + 1 / 2\<rfloor> \<and>
          60 \<le> a \<and> a \<le> b \<and> b \<le> 90 \<and>
          suggestedQuality (Fin 0) = Fin 60"
    by (rule C4_suggested_quality)
  moreover have "suggestedQuality (Fin (1 / 2)) = Fin 75"
    by (simp add: suggestedQuality_Fin rd_eval)
  ultimately show ?thesis by (rule conjI)
qed

lemma scan_uniform:
  "\<forall>j. j + 4 < length data \<longrightarrow> data ! j = data ! (j + 4) \<Longrightarrow> length data = 4 * N \<Longrightarrow>
     i = 4 * k \<Longrightarrow> fst (scan data i diffSum maxDiff) = diffSum"
proof (induction data i diffSum maxDiff arbitrary: k rule: scan.induct)
  case (1 data i diffSum maxDiff)
  show ?case
  proof (cases "int i < int (length data) - 4")
    case True
    then have "4 * int k < 4 * int N - 4" using "1.prems"(2,3) by simp
    then have "k + 2 \<le> N" by presburger
    then have "i + 8 \<le> length data" using "1.prems"(2,3) by simp
    then have "data ! i = data ! (i + 4)" and "data ! (i + 1) = data ! (i + 5)"
      and "data ! (i + 2) = data ! (i + 6)"
      using "1.prems"(1) [rule_format, of i] "1.prems"(1) [rule_format, of "i + 1"]
        "1.prems"(1) [rule_format, of "i + 2"] by (simp_all add: add.commute)
    then have zero: "\<bar>int (unat (data ! i)) - int (unat (data ! (i + 4)))\<bar>
        + \<bar>int (unat (data ! (i + 1))) - int (unat (data ! (i + 5)))\<bar>
        + \<bar>int (unat (data ! (i + 2))) - int (unat (data ! (i + 6)))\<bar> = 0" by simp
    have "fst (scan data (i + 4) (diffSum + nat (\<bar>int (unat (data ! i)) - int (unat (data ! (i + 4)))\<bar>
        + \<bar>int (unat (data ! (i + 1))) - int (unat (data ! (i + 5)))\<bar>
        + \<bar>int (unat (data ! (i + 2))) - int (unat (data ! (i + 6)))\<bar>)) (maxDiff + 765))
      = diffSum + nat (\<bar>int (unat (data ! i)) - int (unat (data ! (i + 4)))\<bar>
        + \<bar>int (unat (data ! (i + 1))) - int (unat (data ! (i + 5)))\<bar>
        + \<bar>int (unat (data ! (i + 2))) - int (unat (data ! (i + 6)))\<bar>)"
      using "1.prems" by (intro "1.IH" [OF True refl refl refl refl, of "k + 1"]) simp_all
    then show ?thesis using True zero by (subst scan.simps) (simp add: Let_def)
  next
    case False
    then show ?thesis by (subst scan.simps) simp
  qed
qed

text \<open>
  An image in which every pixel equals the next one, of two pixels or more, has
  complexity 0 and so the suggested quality 60.
\<close>

lemma uniform_image_quality_60:
  assumes "\<forall>j. j + 4 < length data \<longrightarrow> data ! j = data ! (j + 4)"
    and "length data = 4 * N" and "2 \<le> N"
  shows "complexityOf data = Fin 0 \<and> suggestedQuality (complexityOf data) = Fin 60"
proof -
  have d: "fst (scan data 0 0 0) = 0" using scan_uniform [OF assms(1,2), of 0 0 0 0] by simp
  have m: "snd (scan data 0 0 0) = 765 * (N - 1)"
    using scan_maxDiff [of data N 0 0 0 0] assms by simp
  have "complexityOf data = Fin 0"
    using assms(3) by (simp add: complexityOf_def split_beta d m rd_0)
  then show ?thesis using suggestedQuality_at_0 by (simp add: suggestedQuality_Fin)
qed

section \<open>Determinism\<close>

lemma loop_deterministic:
  assumes "convertEntry_loop codec im t blob q s1 = Some y"
    and "\<forall>w w' i c. fst (codec w i c) = fst (codec w' i c)"
  shows "\<exists>news. invocations (snd y) = invocations s1 @ news \<and>
     (\<forall>s2. \<exists>s2'. convertEntry_loop codec im t blob q s2 = Some (fst y, s2') \<and>
        invocations s2' = invocations s2 @ news)"
  using assms
proof (induction codec im t blob q s1 y rule: convertEntry_loop.raw_induct)
  case (1 f codec im t blob q s1 y)
  note IH = "1.IH" and body = "1.hyps" and run = "1.prems"(1) and det = "1.prems"(2)
  show ?case
  proof (cases "continues t (im, q, blob)")
    case False
    have y: "y = (loop_result im q blob [], s1)"
      using body False by (auto simp: continues_def loop_result_def split: option.splits)
    have "\<And>s2. convertEntry_loop codec im t blob q s2 = Some (loop_result im q blob [], s2)"
      using False
      by (subst convertEntry_loop.simps)
         (auto simp: continues_def loop_result_def split: option.splits)
    then show ?thesis unfolding y by simp
  next
    case True
    then obtain b where b: "blob = Some b"
      and big: "js_gt (blob_size b) (js_mul t (Fin 1024))" and hi: "js_gt q (lit (2 / 10))"
      by (auto simp: continues_def split: option.splits)
    define q' where "q' = js_sub q (lit (5 / 100))"
    obtain blob1 s1x where tb1: "toBlob codec im q' s1 = (blob1, s1x)"
      by (cases "toBlob codec im q' s1")
    have fy: "f codec im t blob1 q' s1x = Some y"
      using body b big hi tb1 by (simp add: q'_def)
    have "convertEntry_loop codec im t blob q s1 = convertEntry_loop codec im t blob1 q' s1x"
      using b big hi tb1 by (subst convertEntry_loop.simps) (simp add: q'_def)
    with run have ly: "convertEntry_loop codec im t blob1 q' s1x = Some y" by simp
    from IH [OF fy ly det] obtain news where
      n1: "invocations (snd y) = invocations s1x @ news" and
      n2: "\<And>s2. \<exists>s2'. convertEntry_loop codec im t blob1 q' s2 = Some (fst y, s2') \<and>
              invocations s2' = invocations s2 @ news"
      by blast
    note i1 = invocations_toBlob [OF tb1]
    have "invocations (snd y) = invocations s1 @ (im, q', blob1) # news"
      using n1 i1 by simp
    moreover have "\<exists>s2'. convertEntry_loop codec im t blob q s2 = Some (fst y, s2') \<and>
        invocations s2' = invocations s2 @ (im, q', blob1) # news" for s2
    proof -
      obtain blob2 s2x where tb2: "toBlob codec im q' s2 = (blob2, s2x)"
        by (cases "toBlob codec im q' s2")
      note i2 = invocations_toBlob [OF tb2]
      have same: "blob2 = blob1" using i1 i2 det by metis
      have step: "convertEntry_loop codec im t blob q s2 = convertEntry_loop codec im t blob1 q' s2x"
        using b big hi tb2 same by (subst convertEntry_loop.simps) (simp add: q'_def)
      from n2 [of s2x] obtain s2' where
        "convertEntry_loop codec im t blob1 q' s2x = Some (fst y, s2')" and
        "invocations s2' = invocations s2x @ news" by blast
      then show ?thesis using step i2 same by simp
    qed
    ultimately show ?thesis by blast
  qed
qed (rule assms(1))

lemma convertEntry_deterministic:
  assumes det: "\<forall>w w' i c. fst (codec w i c) = fst (codec w' i c)"
    and run: "convertEntry codec targetSizeInput entry s1 = Some (r, s1')"
  shows "\<exists>news s2'. invocations s1' = invocations s1 @ news \<and>
           convertEntry codec targetSizeInput entry s2 = Some (r, s2') \<and>
           invocations s2' = invocations s2 @ news"
proof -
  let ?q = "js_div (quality entry) (Fin 100)"
  obtain blob1 s1x where tb1: "toBlob codec (img entry) ?q s1 = (blob1, s1x)"
    by (cases "toBlob codec (img entry) ?q s1")
  obtain blob2 s2x where tb2: "toBlob codec (img entry) ?q s2 = (blob2, s2x)"
    by (cases "toBlob codec (img entry) ?q s2")
  note i1 = invocations_toBlob [OF tb1] and i2 = invocations_toBlob [OF tb2]
  have same: "blob2 = blob1" using i1 i2 det by metis
  show ?thesis
  proof (cases "\<not> isNaN (parseInt10 targetSizeInput) \<and> js_gt (parseInt10 targetSizeInput) (Fin 0)")
    case False
    have "r = Inr (finish entry blob1 ?q)" and "s1' = s1x"
      using run False tb1 by (auto simp: convertEntry_def Let_def)
    moreover have "convertEntry codec targetSizeInput entry s2 = Some (Inr (finish entry blob1 ?q), s2x)"
      using False tb2 same by (auto simp: convertEntry_def Let_def)
    ultimately show ?thesis using i1 i2 same by simp
  next
    case True
    let ?t = "parseInt10 targetSizeInput"
    let ?wrap = "\<lambda>x. case x of (Inl e, s2) \<Rightarrow> (Inl e, s2)
                          | (Inr (blob', q), s2) \<Rightarrow> (Inr (finish entry blob' q), s2)"
    have c1: "convertEntry codec targetSizeInput entry s1 =
        map_option ?wrap (convertEntry_loop codec (img entry) ?t blob1 ?q s1x)"
      using True tb1 by (auto simp: convertEntry_def Let_def split: option.splits sum.splits prod.splits)
    have c2: "convertEntry codec targetSizeInput entry s2 =
        map_option ?wrap (convertEntry_loop codec (img entry) ?t blob1 ?q s2x)"
      using True tb2 same by (auto simp: convertEntry_def Let_def split: option.splits sum.splits prod.splits)
    from run c1 obtain y where y: "convertEntry_loop codec (img entry) ?t blob1 ?q s1x = Some y"
      and ry: "(r, s1') = ?wrap y" by auto
    from loop_deterministic [OF y det] obtain news where
      n1: "invocations (snd y) = invocations s1x @ news" and
      n2: "\<And>s2. \<exists>s2'. convertEntry_loop codec (img entry) ?t blob1 ?q s2 = Some (fst y, s2') \<and>
              invocations s2' = invocations s2 @ news"
      by blast
    from n2 [of s2x] obtain s2' where l2: "convertEntry_loop codec (img entry) ?t blob1 ?q s2x = Some (fst y, s2')"
      and m2: "invocations s2' = invocations s2x @ news" by blast
    have s1': "s1' = snd y" and r: "r = fst (?wrap (fst y, s2'))"
      using ry by (auto split: sum.splits prod.splits)
    have "convertEntry codec targetSizeInput entry s2 = Some (r, s2')"
      unfolding c2 l2 r by (auto split: sum.splits prod.splits)
    moreover have "invocations s1' = invocations s1 @ (img entry, ?q, blob1) # news"
      using n1 i1 s1' by simp
    moreover have "invocations s2' = invocations s2 @ (img entry, ?q, blob1) # news"
      using m2 i2 same by simp
    ultimately show ?thesis by blast
  qed
qed

lemma finish_same_fields:
  "img e2 = img e1 \<Longrightarrow> quality e2 = quality e1 \<Longrightarrow> finish e2 b q = finish e1 b q"
  by (cases e1, cases e2) (simp add: finish_def)

lemma convertEntry_same_fields:
  assumes "img e2 = img e1" and "quality e2 = quality e1"
  shows "convertEntry codec t e2 s = convertEntry codec t e1 s"
proof -
  have "finish e2 = finish e1" using assms by (intro ext) (rule finish_same_fields)
  then show ?thesis unfolding convertEntry_def assms by (simp only:)
qed

text \<open>
  A run of the search: from quality 70 with a budget of 1 KB and the encoder
  \<open>codec_by_quality\<close>, four blobs of 2000 bytes and then, at the first quality that is not
  above 0.5, one of 100 bytes.
\<close>

lemma run_from_70:
  "convertEntry codec_by_quality ''1'' (fresh 70) page0 =
     Some (Inr ((fresh 70)\<lparr>convertedBlob := Some (Blob (replicate 100 0)), downloadDisabled := False,
                          label := Used (Fin 50)\<rparr>),
           \<lparr>world = 5, invocations =
              [(image10, Fin (3152519739159347 / 4503599627370496), Some (Blob (replicate 2000 0))),
               (image10, Fin (1463669878895411 / 2251799813685248), Some (Blob (replicate 2000 0))),
               (image10, Fin (2702159776422297 / 4503599627370496), Some (Blob (replicate 2000 0))),
               (image10, Fin (619244948763443 / 1125899906842624), Some (Blob (replicate 2000 0))),
               (image10, Fin (9007199254740989 / 18014398509481984), Some (Blob (replicate 100 0)))]\<rparr>)"
  by (simp add: convertEntry_def parseInt10_1 toBlob_def codec_by_quality_def fresh_def page0_def
     loop_continue_Fin loop_stop_Fin finish_def rd_eval Let_def)

text \<open>
  C9. When what the encoder delivers depends only on the image and the quality, two runs
  of \<^verbatim>\<open>convertEntry\<close> with the same image, the same initial quality and the same target
  size input, on entries that may differ in everything else and started in any two page
  states, make the same invocations (same qualities in the same order, same blobs) and
  end with the same result: the same exception, or the same blob stored and the same
  quality reported.
\<close>

theorem C9_deterministic_for_deterministic_codec:
  assumes "\<forall>w w' i c. fst (codec w i c) = fst (codec w' i c)"
    and "img entry2 = img entry1" and "quality entry2 = quality entry1"
    and "convertEntry codec targetSizeInput entry1 s1 = Some (r, s1')"
  shows "\<exists>news s2'. invocations s1' = invocations s1 @ news \<and>
           convertEntry codec targetSizeInput entry2 s2 = Some (r, s2') \<and>
           invocations s2' = invocations s2 @ news"
proof -
  from convertEntry_deterministic [OF assms(1,4), of s2] obtain news s2' where
    n1: "invocations s1' = invocations s1 @ news" and
    run2: "convertEntry codec targetSizeInput entry1 s2 = Some (r, s2')" and
    n2: "invocations s2' = invocations s2 @ news"
    by (elim exE conjE)
  have "convertEntry codec targetSizeInput entry2 s2 = Some (r, s2')"
    using run2 convertEntry_same_fields [OF assms(2,3), of codec targetSizeInput s2] by simp
  with n1 n2 show ?thesis by blast
qed

text \<open>
  The two runs of the witness differ in the entry (one is new, the other converted before,
  with another label) and in the page state; each makes the five invocations above.
\<close>

theorem C9_deterministic_witness:
  "(\<forall>w w' i c. fst (codec_by_quality w i c) = fst (codec_by_quality w' i c)) \<and>
   img converted70 = img (fresh 70) \<and> quality converted70 = quality (fresh 70) \<and>
   converted70 \<noteq> fresh 70 \<and>
   (\<exists>news s2'.
      news =
        [(image10, Fin (3152519739159347 / 4503599627370496), Some (Blob (replicate 2000 0))),
         (image10, Fin (1463669878895411 / 2251799813685248), Some (Blob (replicate 2000 0))),
         (image10, Fin (2702159776422297 / 4503599627370496), Some (Blob (replicate 2000 0))),
         (image10, Fin (619244948763443 / 1125899906842624), Some (Blob (replicate 2000 0))),
         (image10, Fin (9007199254740989 / 18014398509481984), Some (Blob (replicate 100 0)))] \<and>
      convertEntry codec_by_quality ''1'' (fresh 70) page0 =
        Some (Inr ((fresh 70)\<lparr>convertedBlob := Some (Blob (replicate 100 0)),
                     downloadDisabled := False, label := Used (Fin 50)\<rparr>),
              \<lparr>world = 5, invocations = invocations page0 @ news\<rparr>) \<and>
      convertEntry codec_by_quality ''1'' converted70 page7 =
        Some (Inr ((fresh 70)\<lparr>convertedBlob := Some (Blob (replicate 100 0)),
                     downloadDisabled := False, label := Used (Fin 50)\<rparr>), s2') \<and>
      invocations s2' = invocations page7 @ news)"
proof -
  have det: "\<forall>w w' i c. fst (codec_by_quality w i c) = fst (codec_by_quality w' i c)"
    by (simp add: codec_by_quality_def)
  have f1: "img converted70 = img (fresh 70)" and f2: "quality converted70 = quality (fresh 70)"
    and ne: "converted70 \<noteq> fresh 70"
    by (simp_all add: converted70_def fresh_def)
  from C9_deterministic_for_deterministic_codec [OF det f1 f2 run_from_70, of page7]
  obtain news s2' where
    n1: "invocations \<lparr>world = 5 :: nat, invocations =
              [(image10, Fin (3152519739159347 / 4503599627370496), Some (Blob (replicate 2000 0))),
               (image10, Fin (1463669878895411 / 2251799813685248), Some (Blob (replicate 2000 0))),
               (image10, Fin (2702159776422297 / 4503599627370496), Some (Blob (replicate 2000 0))),
               (image10, Fin (619244948763443 / 1125899906842624), Some (Blob (replicate 2000 0))),
               (image10, Fin (9007199254740989 / 18014398509481984), Some (Blob (replicate 100 0)))]\<rparr>
          = invocations page0 @ news" and
    run2: "convertEntry codec_by_quality ''1'' converted70 page7 =
        Some (Inr ((fresh 70)\<lparr>convertedBlob := Some (Blob (replicate 100 0)),
                     downloadDisabled := False, label := Used (Fin 50)\<rparr>), s2')" and
    n2: "invocations s2' = invocations page7 @ news"
    by (elim exE conjE)
  from n1 have news: "news =
        [(image10, Fin (3152519739159347 / 4503599627370496), Some (Blob (replicate 2000 0))),
         (image10, Fin (1463669878895411 / 2251799813685248), Some (Blob (replicate 2000 0))),
         (image10, Fin (2702159776422297 / 4503599627370496), Some (Blob (replicate 2000 0))),
         (image10, Fin (619244948763443 / 1125899906842624), Some (Blob (replicate 2000 0))),
         (image10, Fin (9007199254740989 / 18014398509481984), Some (Blob (replicate 100 0)))]"
    by (simp add: page0_def)
  have run1: "convertEntry codec_by_quality ''1'' (fresh 70) page0 =
        Some (Inr ((fresh 70)\<lparr>convertedBlob := Some (Blob (replicate 100 0)),
                     downloadDisabled := False, label := Used (Fin 50)\<rparr>),
              \<lparr>world = 5, invocations = invocations page0 @ news\<rparr>)"
    using run_from_70 unfolding news by (simp add: page0_def)
  from news run1 run2 n2 have "news =
        [(image10, Fin (3152519739159347 / 4503599627370496), Some (Blob (replicate 2000 0))),
         (image10, Fin (1463669878895411 / 2251799813685248), Some (Blob (replicate 2000 0))),
         (image10, Fin (2702159776422297 / 4503599627370496), Some (Blob (replicate 2000 0))),
         (image10, Fin (619244948763443 / 1125899906842624), Some (Blob (replicate 2000 0))),
         (image10, Fin (9007199254740989 / 18014398509481984), Some (Blob (replicate 100 0)))] \<and>
      convertEntry codec_by_quality ''1'' (fresh 70) page0 =
        Some (Inr ((fresh 70)\<lparr>convertedBlob := Some (Blob (replicate 100 0)),
                     downloadDisabled := False, label := Used (Fin 50)\<rparr>),
              \<lparr>world = 5, invocations = invocations page0 @ news\<rparr>) \<and>
      convertEntry codec_by_quality ''1'' converted70 page7 =
        Some (Inr ((fresh 70)\<lparr>convertedBlob := Some (Blob (replicate 100 0)),
                     downloadDisabled := False, label := Used (Fin 50)\<rparr>), s2') \<and>
      invocations s2' = invocations page7 @ news"
    by (intro conjI)
  then have "\<exists>news s2'. news =
        [(image10, Fin (3152519739159347 / 4503599627370496), Some (Blob (replicate 2000 0))),
         (image10, Fin (1463669878895411 / 2251799813685248), Some (Blob (replicate 2000 0))),
         (image10, Fin (2702159776422297 / 4503599627370496), Some (Blob (replicate 2000 0))),
         (image10, Fin (619244948763443 / 1125899906842624), Some (Blob (replicate 2000 0))),
         (image10, Fin (9007199254740989 / 18014398509481984), Some (Blob (replicate 100 0)))] \<and>
      convertEntry codec_by_quality ''1'' (fresh 70) page0 =
        Some (Inr ((fresh 70)\<lparr>convertedBlob := Some (Blob (replicate 100 0)),
                     downloadDisabled := False, label := Used (Fin 50)\<rparr>),
              \<lparr>world = 5, invocations = invocations page0 @ news\<rparr>) \<and>
      convertEntry codec_by_quality ''1'' converted70 page7 =
        Some (Inr ((fresh 70)\<lparr>convertedBlob := Some (Blob (replicate 100 0)),
                     downloadDisabled := False, label := Used (Fin 50)\<rparr>), s2') \<and>
      invocations s2' = invocations page7 @ news"
    by (intro exI)
  with det f1 f2 ne show ?thesis by (intro conjI)
qed

section \<open>Converting all entries\<close>

lemma weave_filter: "weave es (filter (\<lambda>e. convertedBlob e = None) es) = es"
  by (induction es) simp_all

lemma length_weave: "length (weave es new) = length es"
  by (induction es arbitrary: new) (simp_all split: list.splits)

lemma weave_keeps:
  "i < length es \<Longrightarrow> convertedBlob (es ! i) \<noteq> None \<Longrightarrow> weave es new ! i = es ! i"
proof (induction es arbitrary: new i)
  case Nil
  then show ?case by simp
next
  case (Cons e es)
  show ?case
  proof (cases i)
    case 0
    with Cons.prems show ?thesis by auto
  next
    case (Suc j)
    with Cons.prems have "j < length es" and "convertedBlob (es ! j) \<noteq> None" by simp_all
    then have "\<And>new. weave es new ! j = es ! j" by (rule Cons.IH)
    then show ?thesis using Suc by (simp split: list.splits)
  qed
qed

lemma convertAll_weave:
  "convertAll codec targetSizeInput es s =
     map_option (\<lambda>(r, new, s'). (r, weave es new, s'))
       (convertEach codec targetSizeInput (filter (\<lambda>e. convertedBlob e = None) es) s)"
proof (induction es arbitrary: s)
  case Nil
  then show ?case by simp
next
  case (Cons e es)
  show ?case
  proof (cases "convertedBlob e = None")
    case False
    then obtain b where "convertedBlob e = Some b" by auto
    then show ?thesis
      by (cases "convertEach codec targetSizeInput (filter (\<lambda>e. convertedBlob e = None) es) s")
         (simp_all add: Cons.IH split_beta)
  next
    case True
    show ?thesis
    proof (cases "convertEntry codec targetSizeInput e s")
      case None
      with True show ?thesis by simp
    next
      case (Some y)
      obtain r s' where y: "y = (r, s')" by (cases y)
      show ?thesis
      proof (cases r)
        case (Inl err)
        with True Some y show ?thesis by (simp add: weave_filter)
      next
        case (Inr e')
        with True Some y show ?thesis
          by (simp add: Cons.IH split_beta split: option.splits)
      qed
    qed
  qed
qed

text \<open>
  C10. The "convert all" handler does what converting, one after the other and in the
  order of the list, the entries whose \<^verbatim>\<open>convertedBlob\<close> is \<^verbatim>\<open>null\<close> does: the same
  exception or none, the same page state (so the same invocations of the encoder in the
  same order), and the results put back at the places of those entries. An entry that
  has a blob already keeps its place and is unchanged.
\<close>

theorem C10_convertAll_skips_converted:
  "convertAll codec targetSizeInput es s =
     map_option (\<lambda>(r, new, s'). (r, weave es new, s'))
       (convertEach codec targetSizeInput (filter (\<lambda>e. convertedBlob e = None) es) s) \<and>
   length (weave es new) = length es \<and>
   (\<forall>i < length es. convertedBlob (es ! i) \<noteq> None \<longrightarrow> weave es new ! i = es ! i)"
  by (simp add: convertAll_weave length_weave weave_keeps)

theorem C10_convertAll_witness:
  "convertAll codec100 [] [fresh 90, converted70, fresh 60] page0 =
     Some (None,
           [finish (fresh 90) (Some (Blob (replicate 100 0))) (js_div (Fin 90) (Fin 100)),
            converted70,
            finish (fresh 60) (Some (Blob (replicate 100 0))) (js_div (Fin 60) (Fin 100))],
           \<lparr>world = 2, invocations =
              [(image10, js_div (Fin 90) (Fin 100), Some (Blob (replicate 100 0))),
               (image10, js_div (Fin 60) (Fin 100), Some (Blob (replicate 100 0)))]\<rparr>) \<and>
   (1::nat) < length [fresh 90, converted70, fresh 60] \<and>
   convertedBlob ([fresh 90, converted70, fresh 60] ! 1) \<noteq> None \<and>
   weave [fresh 90, converted70, fresh 60] [fresh 1, fresh 2] ! 1 = converted70"
proof -
  define B where "B = Some (Blob (replicate 100 0))"
  define q90 where "q90 = js_div (Fin 90) (Fin 100)"
  define q60 where "q60 = js_div (Fin 60) (Fin 100)"
  define s1 :: "(nat, unit) page" where "s1 = \<lparr>world = 1, invocations = [(image10, q90, B)]\<rparr>"
  define s2 :: "(nat, unit) page" where
    "s2 = \<lparr>world = 2, invocations = [(image10, q90, B), (image10, q60, B)]\<rparr>"
  have "convertEntry codec100 [] (fresh 90) page0 =
      Some (Inr (finish (fresh 90) B (js_div (quality (fresh 90)) (Fin 100))),
           \<lparr>world = 1, invocations = invocations page0 @
              [(img (fresh 90), js_div (quality (fresh 90)) (Fin 100), B)]\<rparr>)"
    by (rule convertEntry_no_budget) (simp_all add: parseInt10_empty codec100_def page0_def B_def)
  moreover have "js_div (quality (fresh 90)) (Fin 100) = q90" and "img (fresh 90) = image10"
    and "invocations page0 = []"
    by (simp_all add: fresh_def q90_def page0_def)
  ultimately have e1: "convertEntry codec100 [] (fresh 90) page0 = Some (Inr (finish (fresh 90) B q90), s1)"
    unfolding s1_def by (simp only: append_Nil)
  have "convertEntry codec100 [] (fresh 60) s1 =
      Some (Inr (finish (fresh 60) B (js_div (quality (fresh 60)) (Fin 100))),
           \<lparr>world = 2, invocations = invocations s1 @
              [(img (fresh 60), js_div (quality (fresh 60)) (Fin 100), B)]\<rparr>)"
    by (rule convertEntry_no_budget) (simp_all add: parseInt10_empty codec100_def s1_def B_def)
  moreover have "js_div (quality (fresh 60)) (Fin 100) = q60" and "img (fresh 60) = image10"
    and "invocations s1 = [(image10, q90, B)]"
    by (simp_all add: fresh_def q60_def s1_def)
  ultimately have e2: "convertEntry codec100 [] (fresh 60) s1 = Some (Inr (finish (fresh 60) B q60), s2)"
    unfolding s2_def by (simp only: append_Cons append_Nil)
  have null: "convertedBlob (fresh 90) = None" "convertedBlob (fresh 60) = None"
    "convertedBlob converted70 = Some (Blob [1, 2, 3])"
    by (simp_all add: fresh_def converted70_def)
  have each: "convertEach codec100 [] (filter (\<lambda>e. convertedBlob e = None) [fresh 90, converted70, fresh 60]) page0 =
      Some (None, [finish (fresh 90) B q90, finish (fresh 60) B q60], s2)"
    using null by (simp add: e1 e2)
  note T = C10_convertAll_skips_converted [of codec100 "[]" "[fresh 90, converted70, fresh 60]" page0
        "[fresh 1, fresh 2]"]
  from T have "convertAll codec100 [] [fresh 90, converted70, fresh 60] page0 =
     map_option (\<lambda>(r, new, s'). (r, weave [fresh 90, converted70, fresh 60] new, s'))
       (convertEach codec100 [] (filter (\<lambda>e. convertedBlob e = None) [fresh 90, converted70, fresh 60]) page0)"
    by (rule conjunct1)
  then have "convertAll codec100 [] [fresh 90, converted70, fresh 60] page0 =
      Some (None, weave [fresh 90, converted70, fresh 60] [finish (fresh 90) B q90, finish (fresh 60) B q60], s2)"
    unfolding each by simp
  moreover have "weave [fresh 90, converted70, fresh 60] [finish (fresh 90) B q90, finish (fresh 60) B q60]
      = [finish (fresh 90) B q90, converted70, finish (fresh 60) B q60]"
    using null by simp
  ultimately have A: "convertAll codec100 [] [fresh 90, converted70, fresh 60] page0 =
      Some (None, [finish (fresh 90) B q90, converted70, finish (fresh 60) B q60], s2)"
    by simp
  have h1: "(1::nat) < length [fresh 90, converted70, fresh 60]" by simp
  have h2: "convertedBlob ([fresh 90, converted70, fresh 60] ! 1) \<noteq> None" using null by simp
  from T have "\<forall>i < length [fresh 90, converted70, fresh 60].
      convertedBlob ([fresh 90, converted70, fresh 60] ! i) \<noteq> None \<longrightarrow>
      weave [fresh 90, converted70, fresh 60] [fresh 1, fresh 2] ! i = [fresh 90, converted70, fresh 60] ! i"
    by (elim conjE)
  with h1 h2 have "weave [fresh 90, converted70, fresh 60] [fresh 1, fresh 2] ! 1
      = [fresh 90, converted70, fresh 60] ! 1" by blast
  then have h3: "weave [fresh 90, converted70, fresh 60] [fresh 1, fresh 2] ! 1 = converted70" by simp
  show ?thesis using A h1 h2 h3 unfolding B_def q90_def q60_def s2_def by blast
qed

section \<open>The qualities the loop goes through\<close>

lemma descent_numeral:
  "descent (numeral v) (Fin x) =
    (if 3602879701896397 / 18014398509481984 < x
     then descent_cons (pred_numeral v) (Fin (rd (x - 3602879701896397 / 72057594037927936)))
     else Some [])"
  by (simp only: numeral_eq_Suc descent.simps descent_cons_def lit_2_10 lit_5_100
        js_gt.simps js_sub.simps)

lemma descent_cons_numeral:
  "descent_cons (numeral v) (Fin x) = map_option (Cons (Fin x)) (descent (numeral v) (Fin x))"
  by (simp add: descent_cons_def)

lemma decrements_eq: "decrements n = nat (- ((20 - n) div 5))"
proof -
  have "(of_int n / 100 - 20 / 100) / (5 / 100 :: rat) = - (of_int (20 - n) / of_int 5)"
    by (simp add: field_simps)
  then have "\<lceil>(of_int n / 100 - 20 / 100) / (5 / 100 :: rat)\<rceil> = - \<lfloor>(of_int (20 - n) / of_int 5 :: rat)\<rfloor>"
    by (simp only: ceiling_minus)
  then show ?thesis unfolding decrements_def by (simp only: floor_divide_of_int_eq)
qed

lemmas descent_eval =
  upto_rec_numeral descent_ok_def descent_ok_at_def decrements_eq overshoot_def
  descent_numeral descent_cons_numeral rd_eval

lemma descent_table_21_30: "list_all descent_ok [21..30]"
  by (simp add: descent_eval)

lemma descent_table_31_40: "list_all descent_ok [31..40]"
  by (simp add: descent_eval)

lemma descent_table_41_50: "list_all descent_ok [41..50]"
  by (simp add: descent_eval)

lemma descent_table_51_60: "list_all descent_ok [51..60]"
  by (simp add: descent_eval)

lemma descent_table_61_70: "list_all descent_ok [61..70]"
  by (simp add: descent_eval)

lemma descent_table_71_80: "list_all descent_ok [71..80]"
  by (simp add: descent_eval)

lemma descent_table_81_90: "list_all descent_ok [81..90]"
  by (simp add: descent_eval)

lemma descent_table_91_100: "list_all descent_ok [91..100]"
  by (simp add: descent_eval)

lemma descent_62:
  "descent 18 (js_div (Fin 62) (Fin 100)) =
     Some [Fin (5134103575202365 / 9007199254740992),
           Fin (4683743612465315 / 9007199254740992),
           Fin (8466767299456531 / 18014398509481984),
           Fin (236438980436951 / 562949953421312),
           Fin (6665327448508333 / 18014398509481984),
           Fin (2882303761517117 / 9007199254740992),
           Fin (4863887597560135 / 18014398509481984),
           Fin (990791918021509 / 4503599627370496),
           Fin (3062447746611937 / 18014398509481984)]"
  by (simp add: descent_eval)

lemma descent_50:
  "descent 18 (js_div (Fin 50) (Fin 100)) =
     Some [Fin (8106479329266893 / 18014398509481984),
           Fin (3602879701896397 / 9007199254740992),
           Fin (6305039478318695 / 18014398509481984),
           Fin (1351079888211149 / 4503599627370496),
           Fin (4503599627370497 / 18014398509481984),
           Fin (1801439850948199 / 9007199254740992),
           Fin (2702159776422299 / 18014398509481984)]"
  by (simp add: descent_eval)

lemma descent_table:
  assumes "21 \<le> n" and "n \<le> 100"
  shows "descent_ok n"
proof -
  have "n \<in> set [21..30] \<or> n \<in> set [31..40] \<or> n \<in> set [41..50] \<or> n \<in> set [51..60] \<or>
        n \<in> set [61..70] \<or> n \<in> set [71..80] \<or> n \<in> set [81..90] \<or> n \<in> set [91..100]"
    using assms by (simp only: set_upto atLeastAtMost_iff) arith
  then show ?thesis
    using descent_table_21_30 descent_table_31_40 descent_table_41_50 descent_table_51_60
      descent_table_61_70 descent_table_71_80 descent_table_81_90 descent_table_91_100
    unfolding list_all_iff by blast
qed

lemma descent_low:
  assumes "x \<le> 20 / 100"
  shows "descent (Suc k) (Fin (rd x)) = Some []"
proof -
  have "x \<le> 2 / 10" using assms by simp
  then have "rd x \<le> rd (2 / 10)" by (rule rd_mono)
  then have "\<not> js_gt (Fin (rd x)) (lit (2 / 10))" by (simp add: lit_def)
  then show ?thesis by (simp only: descent.simps if_False)
qed

lemma loop_trace_images: "loop_trace t im q blob news \<Longrightarrow> \<forall>x \<in> set news. fst x = im"
  by (induction news arbitrary: q blob) auto

section \<open>Runs of convertEntry with a budget\<close>

lemma convertEntry_run:
  assumes "parseInt10 targetSizeInput = Fin t" and "0 < t"
    and "descent k (js_div (quality entry) (Fin 100)) = Some qs"
  shows "\<exists>r s' b0 news.
      convertEntry codec targetSizeInput entry s = Some (r, s') \<and>
      invocations s' = invocations s @ (img entry, js_div (quality entry) (Fin 100), b0) # news \<and>
      loop_trace (Fin t) (img entry) (js_div (quality entry) (Fin 100)) b0 news \<and>
      map (fst \<circ> snd) news = take (length news) qs \<and>
      length news \<le> length qs \<and>
      r = (case loop_result (img entry) (js_div (quality entry) (Fin 100)) b0 news of
             Inl e \<Rightarrow> Inl e | Inr (b, q) \<Rightarrow> Inr (finish entry b q)) \<and>
      (\<forall>x \<in> set ((img entry, js_div (quality entry) (Fin 100), b0) # news).
          \<exists>w. snd (snd x) = fst (codec w (img entry) (fst (snd x))))"
proof -
  let ?q = "js_div (quality entry) (Fin 100)"
  obtain b0 s1 where tb: "toBlob codec (img entry) ?q s = (b0, s1)"
    by (cases "toBlob codec (img entry) ?q s")
  note i1 = invocations_toBlob [OF tb]
  from loop_run [OF assms(3), of codec "img entry" "Fin t" b0 s1] obtain res s' news where
    run: "convertEntry_loop codec (img entry) (Fin t) b0 ?q s1 = Some (res, s')" and
    inv: "invocations s' = invocations s1 @ news" and
    tr: "loop_trace (Fin t) (img entry) ?q b0 news" and
    pre: "map (fst \<circ> snd) news = take (length news) qs" and
    len: "length news \<le> length qs" and
    res: "res = loop_result (img entry) ?q b0 news" and
    prov: "\<forall>x \<in> set news. \<exists>w. snd (snd x) = fst (codec w (img entry) (fst (snd x)))"
    by blast
  let ?r = "case res of Inl e \<Rightarrow> Inl e | Inr (b, q) \<Rightarrow> Inr (finish entry b q)"
  have "convertEntry codec targetSizeInput entry s = Some (?r, s')"
    using convertEntry_budget [OF assms(1,2) tb] run by (auto split: sum.splits)
  moreover have "invocations s' = invocations s @ (img entry, ?q, b0) # news"
    using inv i1 by simp
  moreover have "\<forall>x \<in> set ((img entry, ?q, b0) # news).
      \<exists>w. snd (snd x) = fst (codec w (img entry) (fst (snd x)))"
    using prov i1 by auto
  ultimately show ?thesis using tr pre len res by blast
qed

lemma convertEntry_oversize:
  assumes "parseInt10 targetSizeInput = Fin t" and "0 < t"
    and "descent k (js_div (quality entry) (Fin 100)) = Some qs"
    and "\<forall>w i c. \<exists>b. fst (codec w i c) = Some b \<and> js_gt (blob_size b) (js_mul (Fin t) (Fin 1024))"
  shows "\<exists>s' news b.
      convertEntry codec targetSizeInput entry s =
        Some (Inr (finish entry (Some b) (last (js_div (quality entry) (Fin 100) # qs))), s') \<and>
      invocations s' = invocations s @ news \<and>
      map (fst \<circ> snd) news = js_div (quality entry) (Fin 100) # qs \<and>
      snd (snd (last news)) = Some b \<and>
      (\<forall>x \<in> set news. fst x = img entry)"
proof -
  let ?q = "js_div (quality entry) (Fin 100)"
  from convertEntry_run [OF assms(1-3), of codec s] obtain r s' b0 news where
    run: "convertEntry codec targetSizeInput entry s = Some (r, s')" and
    inv: "invocations s' = invocations s @ (img entry, ?q, b0) # news" and
    tr: "loop_trace (Fin t) (img entry) ?q b0 news" and
    pre: "map (fst \<circ> snd) news = take (length news) qs" and
    r: "r = (case loop_result (img entry) ?q b0 news of
             Inl e \<Rightarrow> Inl e | Inr (b, q) \<Rightarrow> Inr (finish entry b q))" and
    prov: "\<forall>x \<in> set ((img entry, ?q, b0) # news).
          \<exists>w. snd (snd x) = fst (codec w (img entry) (fst (snd x)))"
    by blast
  have big: "\<forall>x \<in> set ((img entry, ?q, b0) # news).
      \<exists>b. snd (snd x) = Some b \<and> js_gt (blob_size b) (js_mul (Fin t) (Fin 1024))"
    using prov assms(4) by metis
  have len: "length news = length qs"
    using assms(3) tr pre big by (intro loop_trace_oversize [of k ?q qs "Fin t" "img entry" b0]) simp_all
  with pre have qs: "map (fst \<circ> snd) news = qs" by simp
  let ?all = "(img entry, ?q, b0) # news"
  have "last ?all \<in> set ?all" by (rule last_in_set) simp
  with big obtain b where b: "snd (snd (last ?all)) = Some b" by blast
  have lq: "fst (snd (last ?all)) = last (?q # qs)"
  proof -
    have "fst (snd (last ?all)) = last (map (fst \<circ> snd) ?all)" by (simp add: last_map)
    then show ?thesis using qs by simp
  qed
  have "loop_result (img entry) ?q b0 news = Inr (Some b, last (?q # qs))"
    unfolding loop_result_def b lq by simp
  then have "r = Inr (finish entry (Some b) (last (?q # qs)))" using r by simp
  with run have "convertEntry codec targetSizeInput entry s =
      Some (Inr (finish entry (Some b) (last (?q # qs))), s')" by simp
  moreover have "invocations s' = invocations s @ ?all" by (rule inv)
  moreover have "map (fst \<circ> snd) ?all = ?q # qs" using qs by simp
  moreover have "\<forall>x \<in> set ?all. fst x = img entry"
    using loop_trace_images [OF tr] by simp
  ultimately have "convertEntry codec targetSizeInput entry s =
      Some (Inr (finish entry (Some b) (last (?q # qs))), s') \<and>
    invocations s' = invocations s @ ?all \<and>
    map (fst \<circ> snd) ?all = ?q # qs \<and>
    snd (snd (last ?all)) = Some b \<and>
    (\<forall>x \<in> set ?all. fst x = img entry)"
    using b by (intro conjI)
  then show ?thesis by (intro exI)
qed

lemma descent_facts:
  assumes "21 \<le> n" and "n \<le> 100"
  shows "\<exists>qs. descent 18 (js_div (Fin (of_int n)) (Fin 100)) = Some qs \<and>
     length qs = decrements n + overshoot n \<and>
     list_all (\<lambda>q'. js_gt q' (Fin (3 / 20))) (js_div (Fin (of_int n)) (Fin 100) # qs) \<and>
     Math_round (js_mul (last (js_div (Fin (of_int n)) (Fin 100) # qs)) (Fin 100))
       = Fin (of_int (n - 5 * int (decrements n + overshoot n)))"
proof -
  let ?q = "js_div (Fin (of_int n)) (Fin 100)"
  have "descent_ok n" using assms by (rule descent_table)
  then have ok: "descent_ok_at n ?q (decrements n + overshoot n)" unfolding descent_ok_def .
  show ?thesis
  proof (cases "descent 18 ?q")
    case None
    with ok show ?thesis unfolding descent_ok_at_def by (simp only: option.case)
  next
    case (Some qs)
    with ok have "length qs = decrements n + overshoot n \<and>
       list_all (\<lambda>q'. js_gt q' (Fin (3 / 20))) (?q # qs) \<and>
       Math_round (js_mul (last (?q # qs)) (Fin 100)) = Fin (of_int (n - 5 * int (decrements n + overshoot n)))"
      unfolding descent_ok_at_def by (simp only: option.case)
    with Some show ?thesis by blast
  qed
qed

lemma descent_last: "descent k q = Some qs \<Longrightarrow> \<not> js_gt (last (q # qs)) (lit (2 / 10))"
proof (induction k arbitrary: q qs)
  case 0
  then show ?case by simp
next
  case (Suc k)
  show ?case
  proof (cases "js_gt q (lit (2 / 10))")
    case False
    with Suc.prems show ?thesis by simp
  next
    case True
    with Suc.prems obtain qs' where d: "descent k (js_sub q (lit (5 / 100))) = Some qs'"
      and qs: "qs = js_sub q (lit (5 / 100)) # qs'" by auto
    from Suc.IH [OF d] show ?thesis unfolding qs by simp
  qed
qed

lemma convertEntry_unreachable:
  assumes "quality entry = Fin (of_int n)" and "21 \<le> n" and "n \<le> 100"
    and "parseInt10 targetSizeInput = Fin t" and "0 < t"
    and "\<forall>w i c. \<exists>b. fst (codec w i c) = Some b \<and> js_gt (blob_size b) (js_mul (Fin t) (Fin 1024))"
  shows "\<exists>s' news q b.
      convertEntry codec targetSizeInput entry s =
        Some (Inr (entry\<lparr>convertedBlob := Some b, downloadDisabled := False,
                         label := Used (Fin (of_int (n - 5 * int (decrements n + overshoot n))))\<rparr>), s') \<and>
      invocations s' = invocations s @ news \<and>
      length news = decrements n + overshoot n + 1 \<and>
      last news = (img entry, q, Some b) \<and>
      \<not> js_gt q (lit (2 / 10)) \<and> js_gt q (Fin (3 / 20))"
proof -
  let ?q = "js_div (quality entry) (Fin 100)"
  from descent_facts [OF assms(2,3)] assms(1) obtain qs where
    d: "descent 18 ?q = Some qs" and len: "length qs = decrements n + overshoot n" and
    above: "list_all (\<lambda>q'. js_gt q' (Fin (3 / 20))) (?q # qs)" and
    shown: "Math_round (js_mul (last (?q # qs)) (Fin 100)) = Fin (of_int (n - 5 * int (decrements n + overshoot n)))"
    by auto
  from convertEntry_oversize [OF assms(4,5) d assms(6), of s] obtain s' news b where
    run: "convertEntry codec targetSizeInput entry s = Some (Inr (finish entry (Some b) (last (?q # qs))), s')" and
    inv: "invocations s' = invocations s @ news" and
    qual: "map (fst \<circ> snd) news = ?q # qs" and
    lb: "snd (snd (last news)) = Some b" and
    im: "\<forall>x \<in> set news. fst x = img entry"
    by (elim exE conjE)
  from qual have ne: "news \<noteq> []" by auto
  have ln: "length news = decrements n + overshoot n + 1"
    using arg_cong [OF qual, of length] len by simp
  have lq: "fst (snd (last news)) = last (?q # qs)"
    using arg_cong [OF qual, of last] ne by (simp add: last_map)
  have li: "fst (last news) = img entry" using im ne by simp
  have l: "last news = (img entry, last (?q # qs), Some b)"
    using li lq lb by (cases "last news") simp
  have "last (?q # qs) \<in> set (?q # qs)" by (rule last_in_set) simp
  with above have hi: "js_gt (last (?q # qs)) (Fin (3 / 20))" unfolding list_all_iff by blast
  have lo: "\<not> js_gt (last (?q # qs)) (lit (2 / 10))" using d by (rule descent_last)
  have "finish entry (Some b) (last (?q # qs)) =
      entry\<lparr>convertedBlob := Some b, downloadDisabled := False,
            label := Used (Fin (of_int (n - 5 * int (decrements n + overshoot n))))\<rparr>"
    by (simp only: finish_def shown)
  with run have run': "convertEntry codec targetSizeInput entry s =
        Some (Inr (entry\<lparr>convertedBlob := Some b, downloadDisabled := False,
                         label := Used (Fin (of_int (n - 5 * int (decrements n + overshoot n))))\<rparr>), s')"
    by (simp only:)
  from run' inv ln l lo hi
  have "convertEntry codec targetSizeInput entry s =
        Some (Inr (entry\<lparr>convertedBlob := Some b, downloadDisabled := False,
                         label := Used (Fin (of_int (n - 5 * int (decrements n + overshoot n))))\<rparr>), s') \<and>
      invocations s' = invocations s @ news \<and>
      length news = decrements n + overshoot n + 1 \<and>
      last news = (img entry, last (?q # qs), Some b) \<and>
      \<not> js_gt (last (?q # qs)) (lit (2 / 10)) \<and> js_gt (last (?q # qs)) (Fin (3 / 20))"
    by (intro conjI)
  then show ?thesis by (intro exI)
qed

lemma codec2000_oversize:
  "\<forall>w i c. \<exists>b. fst (codec2000 w i c) = Some b \<and> js_gt (blob_size b) (js_mul (Fin 1) (Fin 1024))"
  by (simp add: codec2000_def blob_size_def rd_eval)

lemma codec2000_qualities:
  assumes "descent k (js_div (Fin (of_int n)) (Fin 100)) = Some qs"
  shows "map (fst \<circ> snd) (invocations (snd (the (convertEntry codec2000 ''1'' (fresh n) page0))))
     = js_div (Fin (of_int n)) (Fin 100) # qs"
proof -
  have q: "quality (fresh n) = Fin (of_int n)" by (simp add: fresh_def)
  have one: "(0::rat) < 1" by simp
  from convertEntry_oversize [OF parseInt10_1 one assms [folded q] codec2000_oversize, of page0]
  obtain s' news b where
    "convertEntry codec2000 ''1'' (fresh n) page0 =
        Some (Inr (finish (fresh n) (Some b) (last (js_div (quality (fresh n)) (Fin 100) # qs))), s')" and
    "invocations s' = invocations page0 @ news" and
    "map (fst \<circ> snd) news = js_div (quality (fresh n)) (Fin 100) # qs"
    by (elim exE conjE)
  then show ?thesis by (simp add: page0_def q)
qed

lemma qualities_62:
  "map (fst \<circ> snd) (invocations (snd (the (convertEntry codec2000 ''1'' (fresh 62) page0)))) =
     [Fin (5584463537939415 / 9007199254740992),
     Fin (5134103575202365 / 9007199254740992),
     Fin (4683743612465315 / 9007199254740992),
     Fin (8466767299456531 / 18014398509481984),
     Fin (236438980436951 / 562949953421312),
     Fin (6665327448508333 / 18014398509481984),
     Fin (2882303761517117 / 9007199254740992),
     Fin (4863887597560135 / 18014398509481984),
     Fin (990791918021509 / 4503599627370496),
     Fin (3062447746611937 / 18014398509481984)]"
proof -
  have "descent 18 (js_div (Fin (of_int 62)) (Fin 100)) =
     Some [Fin (5134103575202365 / 9007199254740992),
          Fin (4683743612465315 / 9007199254740992),
          Fin (8466767299456531 / 18014398509481984),
          Fin (236438980436951 / 562949953421312),
          Fin (6665327448508333 / 18014398509481984),
          Fin (2882303761517117 / 9007199254740992),
          Fin (4863887597560135 / 18014398509481984),
          Fin (990791918021509 / 4503599627370496),
          Fin (3062447746611937 / 18014398509481984)]"
    using descent_62 by simp
  then have "map (fst \<circ> snd) (invocations (snd (the (convertEntry codec2000 ''1'' (fresh 62) page0)))) =
      js_div (Fin (of_int 62)) (Fin 100) #
          [Fin (5134103575202365 / 9007199254740992),
          Fin (4683743612465315 / 9007199254740992),
          Fin (8466767299456531 / 18014398509481984),
          Fin (236438980436951 / 562949953421312),
          Fin (6665327448508333 / 18014398509481984),
          Fin (2882303761517117 / 9007199254740992),
          Fin (4863887597560135 / 18014398509481984),
          Fin (990791918021509 / 4503599627370496),
          Fin (3062447746611937 / 18014398509481984)]"
    by (rule codec2000_qualities)
  then show ?thesis by (simp add: rd_eval)
qed

lemma qualities_50:
  "map (fst \<circ> snd) (invocations (snd (the (convertEntry codec2000 ''1'' (fresh 50) page0)))) =
     [Fin (1 / 2),
     Fin (8106479329266893 / 18014398509481984),
     Fin (3602879701896397 / 9007199254740992),
     Fin (6305039478318695 / 18014398509481984),
     Fin (1351079888211149 / 4503599627370496),
     Fin (4503599627370497 / 18014398509481984),
     Fin (1801439850948199 / 9007199254740992),
     Fin (2702159776422299 / 18014398509481984)]"
proof -
  have "descent 18 (js_div (Fin (of_int 50)) (Fin 100)) =
     Some [Fin (8106479329266893 / 18014398509481984),
          Fin (3602879701896397 / 9007199254740992),
          Fin (6305039478318695 / 18014398509481984),
          Fin (1351079888211149 / 4503599627370496),
          Fin (4503599627370497 / 18014398509481984),
          Fin (1801439850948199 / 9007199254740992),
          Fin (2702159776422299 / 18014398509481984)]"
    using descent_50 by simp
  then have "map (fst \<circ> snd) (invocations (snd (the (convertEntry codec2000 ''1'' (fresh 50) page0)))) =
      js_div (Fin (of_int 50)) (Fin 100) #
          [Fin (8106479329266893 / 18014398509481984),
          Fin (3602879701896397 / 9007199254740992),
          Fin (6305039478318695 / 18014398509481984),
          Fin (1351079888211149 / 4503599627370496),
          Fin (4503599627370497 / 18014398509481984),
          Fin (1801439850948199 / 9007199254740992),
          Fin (2702159776422299 / 18014398509481984)]"
    by (rule codec2000_qualities)
  then show ?thesis by (simp add: rd_eval)
qed

lemma descent_any:
  assumes "n \<le> 100"
  shows "\<exists>qs. descent 18 (js_div (Fin (of_int n)) (Fin 100)) = Some qs \<and>
     length qs \<le> decrements n + overshoot n"
proof (cases "21 \<le> n")
  case True
  from descent_facts [OF True assms] obtain qs where
    "descent 18 (js_div (Fin (of_int n)) (Fin 100)) = Some qs" and
    "length qs = decrements n + overshoot n"
    by blast
  then show ?thesis by auto
next
  case False
  then have "(of_int n :: rat) \<le> of_int 20" by (simp only: of_int_le_iff)
  then have "(of_int n / 100 :: rat) \<le> 20 / 100" by simp
  then have "descent (Suc 17) (Fin (rd (of_int n / 100))) = Some []" by (rule descent_low)
  moreover have "Suc 17 = 18" by simp
  ultimately have "descent 18 (js_div (Fin (of_int n)) (Fin 100)) = Some []" by simp
  then show ?thesis by simp
qed

text \<open>
  With an initial quality of \<open>n\<close> percent, \<open>n \<le> 100\<close>, and a positive budget,
  \<^verbatim>\<open>convertEntry\<close> returns, with a result or with the exception for a \<^verbatim>\<open>null\<close> blob: the
  loop condition held at every invocation but the last and fails at the last, so the loop
  stops at the first blob within the budget or the first quality not above 0.2. The
  invocations after the first are at most \<open>\<lceil>(n / 100 - 0.20) / 0.05\<rceil>\<close>, except from 40, 45,
  50 and 55, where there may be one more.
\<close>

lemma convertEntry_bounded:
  assumes "quality entry = Fin (of_int n)" and "n \<le> 100"
    and "parseInt10 targetSizeInput = Fin t" and "0 < t"
  shows "\<exists>r s' news.
      convertEntry codec targetSizeInput entry s = Some (r, s') \<and>
      invocations s' = invocations s @ news \<and> news \<noteq> [] \<and>
      list_all (continues (Fin t)) (butlast news) \<and> \<not> continues (Fin t) (last news) \<and>
      length news - 1 \<le> decrements n + overshoot n"
proof -
  let ?q = "js_div (quality entry) (Fin 100)"
  from descent_any [OF assms(2)] assms(1) obtain qs where
    d: "descent 18 ?q = Some qs" and
    len: "length qs \<le> decrements n + overshoot n"
    by auto
  from convertEntry_run [OF assms(3,4) d, of codec s] obtain r s' b0 news where
    run: "convertEntry codec targetSizeInput entry s = Some (r, s')" and
    inv: "invocations s' = invocations s @ (img entry, ?q, b0) # news" and
    tr: "loop_trace (Fin t) (img entry) ?q b0 news" and
    ln: "length news \<le> length qs"
    by (elim exE conjE)
  let ?all = "(img entry, ?q, b0) # news"
  note loop_trace_last [OF tr]
  moreover have "?all \<noteq> []" by simp
  moreover have "length ?all - 1 \<le> decrements n + overshoot n"
    using ln len by simp
  ultimately have "convertEntry codec targetSizeInput entry s = Some (r, s') \<and>
      invocations s' = invocations s @ ?all \<and> ?all \<noteq> [] \<and>
      list_all (continues (Fin t)) (butlast ?all) \<and> \<not> continues (Fin t) (last ?all) \<and>
      length ?all - 1 \<le> decrements n + overshoot n"
    using run inv by (intro conjI) simp_all
  then show ?thesis by (intro exI)
qed


section \<open>The adaptive loop: floor, count of steps, termination\<close>

text \<open>
  C3, as the code has it by design. With an initial quality of \<open>n\<close> percent,
  \<open>21 \<le> n \<le> 100\<close>, other than 40, 45, 50 and 55, and a budget that no blob meets,
  \<^verbatim>\<open>convertEntry\<close> returns after \<open>\<lceil>(n / 100 - 0.20) / 0.05\<rceil>\<close> decrements, that is one
  invocation of the encoder more than that; it stores the blob of the last invocation,
  whose quality is not above the double 0.2 and is above 0.15, and reports the quality
  \<open>n\<close> less 5 for each decrement. Nothing is said here of 40, 45, 50 and 55.
\<close>

theorem C3_unreachable_budget:
  assumes "quality entry = Fin (of_int n)" and "21 \<le> n" and "n \<le> 100"
    and "n \<notin> {40, 45, 50, 55}"
    and "parseInt10 targetSizeInput = Fin t" and "0 < t"
    and "\<forall>w i c. \<exists>b. fst (codec w i c) = Some b \<and> js_gt (blob_size b) (js_mul (Fin t) (Fin 1024))"
  shows "\<exists>s' news q b.
      convertEntry codec targetSizeInput entry s =
        Some (Inr (entry\<lparr>convertedBlob := Some b, downloadDisabled := False,
                         label := Used (Fin (of_int (n - 5 * int (decrements n))))\<rparr>), s') \<and>
      invocations s' = invocations s @ news \<and>
      length news = decrements n + 1 \<and>
      last news = (img entry, q, Some b) \<and>
      \<not> js_gt q (lit (2 / 10)) \<and> js_gt q (Fin (3 / 20))"
proof -
  have "overshoot n = 0" using assms(4) by (simp add: overshoot_def)
  with convertEntry_unreachable [OF assms(1-3,5-7), of s] show ?thesis
    by (simp only: add_0_right)
qed

text \<open>The end-to-end example of C3: from quality 90, 14 decrements, 15 invocations, 20 reported.\<close>

theorem C3_unreachable_budget_witness:
  "\<exists>s' news q b.
      convertEntry codec2000 ''1'' (fresh 90) page0 =
        Some (Inr ((fresh 90)\<lparr>convertedBlob := Some b, downloadDisabled := False,
                              label := Used (Fin 20)\<rparr>), s') \<and>
      invocations s' = invocations page0 @ news \<and>
      length news = 15 \<and>
      last news = (img (fresh 90), q, Some b) \<and>
      \<not> js_gt q (lit (2 / 10)) \<and> js_gt q (Fin (3 / 20))"
proof -
  have q: "quality (fresh 90) = Fin (of_int 90)" by (simp add: fresh_def)
  have d: "decrements 90 = 14" by (simp add: decrements_eq)
  have "(21::int) \<le> 90" and "(90::int) \<le> 100" and "(90::int) \<notin> {40, 45, 50, 55}"
    and "(0::rat) < 1" by simp_all
  from C3_unreachable_budget [OF q this(1,2,3) parseInt10_1 this(4) codec2000_oversize, of page0]
  show ?thesis unfolding d by simp
qed

text \<open>
  C3 as stated fails at the initial quality 0.62: the code makes 10 invocations, that is 9
  decrements, where \<open>\<lfloor>(0.62 - 0.20) / 0.05\<rfloor>\<close> is 8, and the blob it returns was encoded at
  about 0.17, not at the floor.
\<close>

theorem C3_floor_formula_counterexample:
  "length (invocations (snd (the (convertEntry codec2000 ''1'' (fresh 62) page0)))) - 1 = 9 \<and>
   \<lfloor>(62 / 100 - 20 / 100) / (5 / 100 :: rat)\<rfloor> = 8 \<and>
   (fst \<circ> snd) (last (invocations (snd (the (convertEntry codec2000 ''1'' (fresh 62) page0)))))
     = Fin (3062447746611937 / 18014398509481984)"
proof -
  let ?inv = "invocations (snd (the (convertEntry codec2000 ''1'' (fresh 62) page0)))"
  have "length (map (fst \<circ> snd) ?inv) = 10" unfolding qualities_62 by simp
  then have len: "length ?inv = 10" by simp
  then have ne: "?inv \<noteq> []" by auto
  have "last (map (fst \<circ> snd) ?inv) = Fin (3062447746611937 / 18014398509481984)"
    unfolding qualities_62 by simp
  then have l: "(fst \<circ> snd) (last ?inv) = Fin (3062447746611937 / 18014398509481984)"
    using ne by (simp add: last_map)
  have "\<lfloor>(62 / 100 - 20 / 100) / (5 / 100 :: rat)\<rfloor> = 8" by (simp add: rd_eval)
  with len l show ?thesis by simp
qed

text \<open>
  C8 fails at the initial quality 50 with a budget of 1 KB that no blob meets. The quality
  0.5 is a double; the code re-encodes 7 times where \<open>\<lceil>(0.5 - 0.20) / 0.05\<rceil>\<close> is 6, because
  the sixth rounded subtraction gives a double just above the double 0.2, so that the loop
  condition holds once more; the last blob is encoded at about 0.15 and the quality
  reported is 15.
\<close>

theorem C8_ceiling_exceeded_from_50:
  "js_div (Fin 50) (Fin 100) = Fin (1 / 2) \<and>
   length (invocations (snd (the (convertEntry codec2000 ''1'' (fresh 50) page0)))) - 1 = 7 \<and>
   \<lceil>(1 / 2 - 20 / 100) / (5 / 100 :: rat)\<rceil> = 6 \<and>
   (fst \<circ> snd) (invocations (snd (the (convertEntry codec2000 ''1'' (fresh 50) page0))) ! 6)
     = Fin (1801439850948199 / 9007199254740992) \<and>
   js_gt (Fin (1801439850948199 / 9007199254740992)) (lit (2 / 10)) \<and>
   (fst \<circ> snd) (invocations (snd (the (convertEntry codec2000 ''1'' (fresh 50) page0))) ! 7)
     = Fin (2702159776422299 / 18014398509481984) \<and>
   \<not> isl (fst (the (convertEntry codec2000 ''1'' (fresh 50) page0))) \<and>
   label (projr (fst (the (convertEntry codec2000 ''1'' (fresh 50) page0)))) = Used (Fin 15)"
proof -
  let ?run = "convertEntry codec2000 ''1'' (fresh 50) page0"
  let ?inv = "invocations (snd (the ?run))"
  have "length (map (fst \<circ> snd) ?inv) = 8" unfolding qualities_50 by simp
  then have len: "length ?inv = 8" by simp
  have "map (fst \<circ> snd) ?inv ! 6 = Fin (1801439850948199 / 9007199254740992)"
    unfolding qualities_50 by simp
  then have six: "(fst \<circ> snd) (?inv ! 6) = Fin (1801439850948199 / 9007199254740992)"
    using len by simp
  have "map (fst \<circ> snd) ?inv ! 7 = Fin (2702159776422299 / 18014398509481984)"
    unfolding qualities_50 by simp
  then have seven: "(fst \<circ> snd) (?inv ! 7) = Fin (2702159776422299 / 18014398509481984)"
    using len by simp
  have half: "js_div (Fin 50) (Fin 100) = Fin (1 / 2)" by (simp add: rd_eval)
  have c: "\<lceil>(1 / 2 - 20 / 100) / (5 / 100 :: rat)\<rceil> = 6" by simp
  have g: "js_gt (Fin (1801439850948199 / 9007199254740992)) (lit (2 / 10))"
    unfolding lit_2_10 by simp
  have q: "quality (fresh 50) = Fin (of_int 50)" by (simp add: fresh_def)
  have d: "decrements 50 + overshoot 50 = 7" by (simp add: decrements_eq overshoot_def)
  have "(21::int) \<le> 50" and "(50::int) \<le> 100" and "(0::rat) < 1" by simp_all
  from convertEntry_unreachable [OF q this(1,2) parseInt10_1 this(3) codec2000_oversize, of page0]
  obtain s' b where
    "?run = Some (Inr ((fresh 50)\<lparr>convertedBlob := Some b, downloadDisabled := False,
                     label := Used (Fin (of_int (50 - 5 * int (decrements 50 + overshoot 50))))\<rparr>), s')"
    by (elim exE conjE)
  then have "fst (the ?run) = Inr ((fresh 50)\<lparr>convertedBlob := Some b, downloadDisabled := False,
                     label := Used (Fin 15)\<rparr>)"
    unfolding d by simp
  then have shown: "\<not> isl (fst (the ?run)) \<and> label (projr (fst (the ?run))) = Used (Fin 15)"
    by simp
  from half len c six g seven shown show ?thesis by simp
qed

text \<open>
  From 60, a multiple of 5 like 50, the rounded subtractions do arrive at a double that is
  not above the double 0.2: the code re-encodes 8 times, as many as \<open>\<lceil>(0.60 - 0.20) / 0.05\<rceil>\<close>,
  and reports 20.
\<close>

lemma run_from_60:
  "\<exists>s' news q b.
      convertEntry codec2000 ''1'' (fresh 60) page0 =
        Some (Inr ((fresh 60)\<lparr>convertedBlob := Some b, downloadDisabled := False,
                              label := Used (Fin 20)\<rparr>), s') \<and>
      invocations s' = invocations page0 @ news \<and>
      length news - 1 = 8 \<and>
      \<lceil>(60 / 100 - 20 / 100) / (5 / 100 :: rat)\<rceil> = 8"
proof -
  have q: "quality (fresh 60) = Fin (of_int 60)" by (simp add: fresh_def)
  have d: "decrements 60 + overshoot 60 = 8" by (simp add: decrements_eq overshoot_def)
  have "(21::int) \<le> 60" and "(60::int) \<le> 100" and "(0::rat) < 1" by simp_all
  from convertEntry_unreachable [OF q this(1,2) parseInt10_1 this(3) codec2000_oversize, of page0]
  obtain s' news q b where
    "convertEntry codec2000 ''1'' (fresh 60) page0 =
        Some (Inr ((fresh 60)\<lparr>convertedBlob := Some b, downloadDisabled := False,
                              label := Used (Fin (of_int (60 - 5 * int (decrements 60 + overshoot 60))))\<rparr>), s')"
    and "invocations s' = invocations page0 @ news"
    and "length news = decrements 60 + overshoot 60 + 1"
    by (elim exE conjE)
  then have "convertEntry codec2000 ''1'' (fresh 60) page0 =
        Some (Inr ((fresh 60)\<lparr>convertedBlob := Some b, downloadDisabled := False,
                              label := Used (Fin 20)\<rparr>), s') \<and>
      invocations s' = invocations page0 @ news \<and>
      length news - 1 = 8 \<and>
      \<lceil>(60 / 100 - 20 / 100) / (5 / 100 :: rat)\<rceil> = 8"
    unfolding d by simp
  then show ?thesis by (intro exI)
qed

text \<open>
  C6 as stated fails for a target size input that is not a number but begins with one:
  \<^verbatim>\<open>parseInt("1px", 10)\<close> is 1, so the input sets a budget of 1 KB and the search runs.
  From quality 90 with blobs of 2000 bytes the encoder is invoked 15 times and the quality
  reported is 20, not 90.
\<close>

theorem C6_nonnumeric_counterexample:
  "\<not> list_all is_digit ''1px'' \<and> parseInt10 ''1px'' = Fin 1 \<and>
   length (invocations (snd (the (convertEntry codec2000 ''1px'' (fresh 90) page0)))) = 15 \<and>
   \<not> isl (fst (the (convertEntry codec2000 ''1px'' (fresh 90) page0))) \<and>
   label (projr (fst (the (convertEntry codec2000 ''1px'' (fresh 90) page0)))) = Used (Fin 20) \<and>
   quality (fresh 90) = Fin 90"
proof -
  let ?run = "convertEntry codec2000 ''1px'' (fresh 90) page0"
  have nd: "\<not> list_all is_digit ''1px''" by (simp add: is_digit_def)
  have p: "parseInt10 ''1px'' = Fin 1"
    by (simp add: parseInt10_def js_space_def is_digit_def digits_value_def rd_eval)
  have q: "quality (fresh 90) = Fin (of_int 90)" by (simp add: fresh_def)
  have d: "decrements 90 + overshoot 90 = 14" by (simp add: decrements_eq overshoot_def)
  have "(21::int) \<le> 90" and "(90::int) \<le> 100" and "(0::rat) < 1" by simp_all
  from convertEntry_unreachable [OF q this(1,2) p this(3) codec2000_oversize, of page0]
  obtain s' news b where
    run: "?run = Some (Inr ((fresh 90)\<lparr>convertedBlob := Some b, downloadDisabled := False,
                     label := Used (Fin (of_int (90 - 5 * int (decrements 90 + overshoot 90))))\<rparr>), s')"
    and inv: "invocations s' = invocations page0 @ news"
    and len: "length news = decrements 90 + overshoot 90 + 1"
    by (elim exE conjE)
  from run have r: "?run = Some (Inr ((fresh 90)\<lparr>convertedBlob := Some b, downloadDisabled := False,
                     label := Used (Fin 20)\<rparr>), s')"
    unfolding d by simp
  have "length (invocations (snd (the ?run))) = 15"
    unfolding r using inv len d by (simp add: page0_def)
  moreover have "\<not> isl (fst (the ?run)) \<and> label (projr (fst (the ?run))) = Used (Fin 20)"
    unfolding r by simp
  moreover have "quality (fresh 90) = Fin 90" by (simp add: fresh_def)
  ultimately show ?thesis using nd p by simp
qed




end
